theory Spec2Isabelle
  imports Complex_Main
begin

section \<open>The network renderer (module \<open>network\<close>)\<close>

text \<open>
  JavaScript numbers are modelled as rationals (NaN and the infinities are left out). The
  renderer compares them, which is exact; the one place where it computes with them is
  the radius of a circle, taken without rounding. The slider computes the window from
  pixels, and there every operation rounds as binary64 does. Strings are modelled as
  \<open>string\<close>, an optional property of an object as an
  \<open>option\<close> (\<open>None\<close> is \<open>undefined\<close>), a thrown exception as the left injection of a
  sum. Objects that are shared and mutated (the node objects) live in an array, the
  store, and a reference to one of them is its index in that array.
\<close>

datatype error = TypeError | SyntaxError

subsection \<open>Data\<close>

text \<open>A node object of the payload; \<open>n_time\<close> and \<open>n_searched\<close> are the properties that
  \<open>Object.assign\<close> and \<open>updateSearch\<close> add to it later.\<close>

record node =
  n_uid :: string
  n_label :: "string option"
  n_group :: "string option"
  n_color :: "string option"
  n_size :: "rat option"
  n_text :: "string option"
  n_euclidean :: "(rat \<times> rat) option"
  n_time :: "rat option"
  n_searched :: bool

text \<open>A link of the payload, its endpoints still raw ids.\<close>

record link =
  l_source :: string
  l_target :: string
  l_time :: "rat option"
  l_weight :: "rat option"

text \<open>A link after \<open>setupData\<close>: the endpoints are references to node objects.\<close>

record edge =
  e_source :: nat
  e_target :: nat
  e_uid :: string
  e_time :: "rat option"
  e_weight :: "rat option"

text \<open>A record of \<open>changes\<close>: the uid, the time and the patched attributes.\<close>

record change =
  c_uid :: string
  c_time :: rat
  c_label :: "string option"
  c_group :: "string option"
  c_color :: "string option"
  c_size :: "rat option"
  c_text :: "string option"

record timewindow =
  w_past :: rat
  w_time :: rat
  w_aggregated :: rat
  w_future :: rat

record payload =
  p_nodes :: "node list"
  p_links :: "link list"
  p_changes :: "change list"

text \<open>The elements of the scene: a circle per node, a line per edge, each with the
  datum bound to it, its classes and the attributes a transition moves it to.\<close>

record node_elem =
  ne_datum :: nat
  ne_r :: "rat option"
  ne_fill :: string
  ne_highlight :: bool
  ne_search :: bool

record edge_elem =
  ee_datum :: edge
  ee_active :: bool
  ee_highlight :: bool

text \<open>The named forces attached to the simulation.\<close>

record forces =
  f_links :: "edge list option"
  f_center :: bool
  f_charge :: bool
  f_x :: bool
  f_y :: bool

text \<open>The variables captured by the closure of \<open>network(config)\<close>. \<open>nodes_sel\<close> and
  \<open>edges_sel\<close> are the circles and the lines of the scene, which the selections \<open>nodes\<close>
  and \<open>edges\<close> hold after a render; \<open>nodes_set\<close> tells whether \<open>nodes\<close> has been assigned
  a selection: it is \<open>null\<close> until the first \<open>renderNodes\<close>.\<close>

record vstate =
  v_temporal :: bool
  v_radiusMinSize :: rat
  v_radiusMaxSize :: rat
  v_layout :: string
  v_filter :: string
  v_time :: timewindow
  v_nodes :: "node list"
  v_links :: "edge list"
  v_changes :: "change list"
  v_countExtent :: "(rat \<times> rat) option"
  v_linkedByIndex :: "string list"
  v_simNodes :: "nat list"
  v_forces :: forces
  v_alpha :: rat
  nodes_sel :: "node_elem list"
  edges_sel :: "edge_elem list"
  nodes_set :: bool

subsection \<open>Accessors with defaults\<close>

definition getColor :: "node \<Rightarrow> string" where
  "getColor d = (case n_color d of None \<Rightarrow> ''#99ccff'' | Some c \<Rightarrow> c)"

definition getSize :: "node \<Rightarrow> rat" where
  "getSize d = (case n_size d of None \<Rightarrow> 6 | Some s \<Rightarrow> s)"

definition getName :: "node \<Rightarrow> string" where
  "getName d = (case n_label d of None \<Rightarrow> n_uid d | Some l \<Rightarrow> l)"

subsection \<open>Filters\<close>

text \<open>\<open>filterNodes\<close>: the whole array under the filter \<open>all\<close>, else the nodes whose
  group is the filter; the callback returns \<open>d.group\<close>, which is falsy when empty.\<close>

definition filterNodes :: "string \<Rightarrow> node list \<Rightarrow> nat list" where
  "filterNodes flt store =
     (if flt \<noteq> ''all''
      then filter (\<lambda>i. n_group (store ! i) = Some flt \<and> flt \<noteq> []) [0..<length store]
      else [0..<length store])"

text \<open>\<open>Object.assign(node, change)\<close>: every own property of the change overwrites the
  node's.\<close>

definition assign :: "node \<Rightarrow> change \<Rightarrow> node" where
  "assign d n = d\<lparr>
     n_uid := c_uid n,
     n_time := Some (c_time n),
     n_label := (case c_label n of None \<Rightarrow> n_label d | Some v \<Rightarrow> Some v),
     n_group := (case c_group n of None \<Rightarrow> n_group d | Some v \<Rightarrow> Some v),
     n_color := (case c_color n of None \<Rightarrow> n_color d | Some v \<Rightarrow> Some v),
     n_size := (case c_size n of None \<Rightarrow> n_size d | Some v \<Rightarrow> Some v),
     n_text := (case c_text n of None \<Rightarrow> n_text d | Some v \<Rightarrow> Some v)\<rparr>"

text \<open>\<open>findIndex\<close> over the array of node references.\<close>

definition findIndex :: "node list \<Rightarrow> nat list \<Rightarrow> string \<Rightarrow> nat option" where
  "findIndex store refs u = find (\<lambda>i. n_uid (store ! i) = u) refs"

definition applyChange :: "nat list \<Rightarrow> change \<Rightarrow> node list \<Rightarrow> node list" where
  "applyChange refs n store =
     (case findIndex store refs (c_uid n) of
        None \<Rightarrow> store
      | Some i \<Rightarrow> store[i := assign (store ! i) n])"

definition updateTemporalNodes ::
  "timewindow \<Rightarrow> node list \<Rightarrow> nat list \<Rightarrow> change list \<Rightarrow> node list" where
  "updateTemporalNodes tw store refs changesData =
     fold (applyChange refs) (filter (\<lambda>d. c_time d = w_time tw) changesData) store"

text \<open>Reading \<open>d.source.uid\<close> through a reference; a reference to nothing throws.\<close>

definition uidOf :: "node list \<Rightarrow> nat \<Rightarrow> error + string" where
  "uidOf store i = (if i < length store then Inr (n_uid (store ! i)) else Inl TypeError)"

fun filterEdges :: "node list \<Rightarrow> edge list \<Rightarrow> nat list \<Rightarrow> error + edge list" where
  "filterEdges store [] refs = Inr []"
| "filterEdges store (d # ds) refs =
     (case uidOf store (e_source d) of
        Inl err \<Rightarrow> Inl err
      | Inr su \<Rightarrow>
          if su \<in> set (map (\<lambda>i. n_uid (store ! i)) refs)
          then (case uidOf store (e_target d) of
                  Inl err \<Rightarrow> Inl err
                | Inr tu \<Rightarrow>
                    (case filterEdges store ds refs of
                       Inl err \<Rightarrow> Inl err
                     | Inr r \<Rightarrow>
                         Inr (if tu \<in> set (map (\<lambda>i. n_uid (store ! i)) refs)
                              then d # r else r)))
          else filterEdges store ds refs)"

text \<open>A comparison with \<open>undefined\<close> is false, so an edge with no time fails both
  tests.\<close>

definition inWindow :: "timewindow \<Rightarrow> edge \<Rightarrow> bool" where
  "inWindow tw d =
     (case e_time d of None \<Rightarrow> False | Some t \<Rightarrow> w_past tw \<le> t \<and> t \<le> w_future tw)"

definition filterTemporalEdges :: "timewindow \<Rightarrow> edge list \<Rightarrow> edge list" where
  "filterTemporalEdges tw edgesData = filter (inWindow tw) edgesData"

subsection \<open>Radius scale\<close>

text \<open>\<open>d3.extent\<close> of the node sizes (\<open>undefined\<close> for no node), and a linear scale with
  no clamp; d3 maps a domain of one point to the middle of the range. \<open>None\<close> is NaN.\<close>

fun extent :: "rat list \<Rightarrow> (rat \<times> rat) option" where
  "extent [] = None"
| "extent (x # xs) = Some (fold min xs x, fold max xs x)"

definition scaleLinear :: "rat \<times> rat \<Rightarrow> rat \<times> rat \<Rightarrow> rat \<Rightarrow> rat" where
  "scaleLinear dm rg v =
     (if snd dm = fst dm then fst rg + (snd rg - fst rg) * (1 / 2)
      else fst rg + (snd rg - fst rg) * ((v - fst dm) / (snd dm - fst dm)))"

definition scaleRadius :: "vstate \<Rightarrow> node \<Rightarrow> rat option" where
  "scaleRadius s n =
     (case v_countExtent s of
        None \<Rightarrow> None
      | Some ext \<Rightarrow>
          Some (scaleLinear ext (v_radiusMinSize s, v_radiusMaxSize s) (getSize n)))"

subsection \<open>Joining data to elements\<close>

text \<open>\<open>selection.data(nodesData)\<close> joins by index: the i-th element keeps its classes and
  gets the i-th datum, missing elements enter, surplus elements exit and are removed;
  then the transition moves every element to its radius and colour.\<close>

definition enterNode :: "nat \<Rightarrow> node_elem" where
  "enterNode d =
     \<lparr>ne_datum = d, ne_r = Some 0, ne_fill = [], ne_highlight = False, ne_search = False\<rparr>"

fun bindIndex :: "node_elem list \<Rightarrow> nat list \<Rightarrow> node_elem list" where
  "bindIndex old [] = []"
| "bindIndex [] (d # ds) = enterNode d # bindIndex [] ds"
| "bindIndex (el # els) (d # ds) = el\<lparr>ne_datum := d\<rparr> # bindIndex els ds"

definition renderNodes :: "vstate \<Rightarrow> node list \<Rightarrow> nat list \<Rightarrow> node_elem list" where
  "renderNodes s store nodesData =
     map (\<lambda>el. el\<lparr>ne_r := scaleRadius s (store ! ne_datum el),
                   ne_fill := getColor (store ! ne_datum el)\<rparr>)
       (bindIndex (nodes_sel s) nodesData)"

text \<open>\<open>selection.data(edgesData, d => d.uid)\<close> joins by key: the first element with a
  key is bound to the first datum with that key and keeps its classes; every other datum
  enters as a new line with the classes \<open>edge_active\<close> on and \<open>edge_highlight\<close> off; every
  other element exits and is removed. \<open>used\<close> holds the keys already bound.\<close>

definition enterEdge :: "edge \<Rightarrow> edge_elem" where
  "enterEdge d = \<lparr>ee_datum = d, ee_active = True, ee_highlight = False\<rparr>"

fun bindKey :: "edge_elem list \<Rightarrow> string list \<Rightarrow> edge list \<Rightarrow> edge_elem list" where
  "bindKey old used [] = []"
| "bindKey old used (d # ds) =
     (case (if e_uid d \<in> set used then None
            else find (\<lambda>el. e_uid (ee_datum el) = e_uid d) old) of
        Some el \<Rightarrow> el\<lparr>ee_datum := d\<rparr> # bindKey old (e_uid d # used) ds
      | None \<Rightarrow> enterEdge d # bindKey old used ds)"

definition renderEdges :: "edge_elem list \<Rightarrow> edge list \<Rightarrow> edge_elem list" where
  "renderEdges old edgesData = bindKey old [] edgesData"

text \<open>\<open>renderTemporalEdges\<close>: the callback returns false, switching \<open>edge_active\<close> off,
  for a time in \<open>[past, time)\<close> or in \<open>(aggregated, future]\<close>, and true otherwise.\<close>

definition edgeActive :: "timewindow \<Rightarrow> edge \<Rightarrow> bool" where
  "edgeActive tw d =
     (if (case e_time d of
            None \<Rightarrow> False
          | Some t \<Rightarrow> (w_past tw \<le> t \<and> t < w_time tw) \<or>
                      (w_aggregated tw < t \<and> t \<le> w_future tw))
      then False else True)"

definition renderTemporalEdges :: "timewindow \<Rightarrow> edge_elem list \<Rightarrow> edge_elem list" where
  "renderTemporalEdges tw sel = map (\<lambda>el. el\<lparr>ee_active := edgeActive tw (ee_datum el)\<rparr>) sel"

subsection \<open>Layout\<close>

definition setupNetworkLayout :: "edge list \<Rightarrow> forces" where
  "setupNetworkLayout edgesData =
     \<lparr>f_links = Some edgesData, f_center = True, f_charge = True, f_x = False, f_y = False\<rparr>"

text \<open>The euclidean layout reads \<open>value.euclidean[0]\<close> of every node of the payload, which
  throws for a node that has no coordinates.\<close>

definition setupEuclideanLayout :: "node list \<Rightarrow> error + forces" where
  "setupEuclideanLayout store =
     (if list_all (\<lambda>n. n_euclidean n \<noteq> None) store
      then Inr \<lparr>f_links = None, f_center = False, f_charge = True, f_x = True, f_y = True\<rparr>
      else Inl TypeError)"

subsection \<open>render\<close>

text \<open>The scene is the one the transitions end in: an exiting circle is gone, a circle
  has its target radius and colour. The positions that the simulation computes on its
  ticks are not part of the model.\<close>

definition render :: "vstate \<Rightarrow> error + vstate" where
  "render s =
     (let filteredNodes = filterNodes (v_filter s) (v_nodes s);
          store = (if v_temporal s
                   then updateTemporalNodes (v_time s) (v_nodes s) filteredNodes (v_changes s)
                   else v_nodes s)
      in case filterEdges store (v_links s) filteredNodes of
           Inl err \<Rightarrow> Inl err
         | Inr filteredEdges \<Rightarrow>
             (let considerdEdges = (if v_temporal s
                                    then filterTemporalEdges (v_time s) filteredEdges
                                    else filteredEdges)
              in case (if v_layout s = ''force'' then Inr (setupNetworkLayout considerdEdges)
                       else if v_layout s = ''euclidean'' then setupEuclideanLayout store
                       else Inr (setupNetworkLayout considerdEdges)) of
                   Inl err \<Rightarrow> Inl err
                 | Inr frc \<Rightarrow>
                     Inr (s\<lparr>v_nodes := store,
                            v_simNodes := filteredNodes,
                            v_forces := frc,
                            nodes_sel := renderNodes s store filteredNodes,
                            nodes_set := True,
                            edges_sel :=
                              (if v_temporal s
                               then renderTemporalEdges (v_time s)
                                      (renderEdges (edges_sel s) considerdEdges)
                               else renderEdges (edges_sel s) considerdEdges),
                            v_alpha := 1\<rparr>)))"

text \<open>The parts of \<open>render\<close> by name: the store after the changes of the current time, the
  edges that are drawn, the forces of the layout, and the state that \<open>render\<close> leaves.\<close>

definition renderStore :: "vstate \<Rightarrow> node list" where
  "renderStore s =
     (if v_temporal s
      then updateTemporalNodes (v_time s) (v_nodes s)
             (filterNodes (v_filter s) (v_nodes s)) (v_changes s)
      else v_nodes s)"

definition consideredEdges :: "vstate \<Rightarrow> edge list \<Rightarrow> edge list" where
  "consideredEdges s filteredEdges =
     (if v_temporal s then filterTemporalEdges (v_time s) filteredEdges else filteredEdges)"

definition layoutForces :: "vstate \<Rightarrow> edge list \<Rightarrow> error + forces" where
  "layoutForces s edgesData =
     (if v_layout s = ''force'' then Inr (setupNetworkLayout edgesData)
      else if v_layout s = ''euclidean'' then setupEuclideanLayout (renderStore s)
      else Inr (setupNetworkLayout edgesData))"

definition rendered :: "vstate \<Rightarrow> edge list \<Rightarrow> forces \<Rightarrow> vstate" where
  "rendered s edgesData frc =
     s\<lparr>v_nodes := renderStore s,
       v_simNodes := filterNodes (v_filter s) (v_nodes s),
       v_forces := frc,
       nodes_sel := renderNodes s (renderStore s) (filterNodes (v_filter s) (v_nodes s)),
       nodes_set := True,
       edges_sel :=
         (if v_temporal s
          then renderTemporalEdges (v_time s) (renderEdges (edges_sel s) edgesData)
          else renderEdges (edges_sel s) edgesData),
       v_alpha := 1\<rparr>"

subsection \<open>Loading the payload\<close>

text \<open>\<open>d3.map(data.nodes, d => d.uid).get(id)\<close>: the last node with the uid.\<close>

definition nodesMap_get :: "node list \<Rightarrow> string \<Rightarrow> nat option" where
  "nodesMap_get store u = find (\<lambda>i. n_uid (store ! i) = u) (rev [0..<length store])"

text \<open>The loop over \<open>data.links\<close>: \<open>l.source.uid\<close> throws when the id is not a node's.
  (The \<open>radius\<close> property that \<open>setupData\<close> adds to every node is never read and is
  left out.)\<close>

fun setupLinks :: "node list \<Rightarrow> link list \<Rightarrow> error + edge list" where
  "setupLinks store [] = Inr []"
| "setupLinks store (l # ls) =
     (case nodesMap_get store (l_source l) of
        None \<Rightarrow> Inl TypeError
      | Some si \<Rightarrow>
          (case nodesMap_get store (l_target l) of
             None \<Rightarrow> Inl TypeError
           | Some ti \<Rightarrow>
               (case setupLinks store ls of
                  Inl err \<Rightarrow> Inl err
                | Inr r \<Rightarrow>
                    Inr (\<lparr>e_source = si, e_target = ti,
                          e_uid = n_uid (store ! si) @ ''_'' @ n_uid (store ! ti),
                          e_time = l_time l, e_weight = l_weight l\<rparr> # r))))"

definition setupData :: "payload \<Rightarrow> vstate \<Rightarrow> error + vstate" where
  "setupData data s =
     (case setupLinks (p_nodes data) (p_links data) of
        Inl err \<Rightarrow> Inl err
      | Inr ls \<Rightarrow>
          Inr (s\<lparr>v_countExtent := extent (map getSize (p_nodes data)),
                 v_nodes := p_nodes data,
                 v_links := ls,
                 v_changes := p_changes data,
                 v_linkedByIndex := v_linkedByIndex s @ map e_uid ls\<rparr>))"

text \<open>The closure's variables as \<open>network(config)\<close> leaves them.\<close>

definition network :: "bool \<Rightarrow> string \<Rightarrow> rat \<Rightarrow> rat \<Rightarrow> vstate" where
  "network temporal layout rmin rmax =
     \<lparr>v_temporal = temporal, v_radiusMinSize = rmin, v_radiusMaxSize = rmax,
      v_layout = layout, v_filter = ''all'',
      v_time = \<lparr>w_past = 0, w_time = 0, w_aggregated = 0, w_future = 0\<rparr>,
      v_nodes = [], v_links = [], v_changes = [], v_countExtent = None,
      v_linkedByIndex = [], v_simNodes = [],
      v_forces = \<lparr>f_links = None, f_center = False, f_charge = False,
                  f_x = False, f_y = False\<rparr>,
      v_alpha = 1, nodes_sel = [], edges_sel = [], nodes_set = False\<rparr>"

text \<open>\<open>chart(selector, rawData)\<close>: load, append a fresh svg, render.\<close>

definition chart :: "payload \<Rightarrow> vstate \<Rightarrow> error + vstate" where
  "chart rawData s =
     (case setupData rawData s of
        Inl err \<Rightarrow> Inl err
      | Inr s' \<Rightarrow> render (s'\<lparr>nodes_sel := [], edges_sel := []\<rparr>))"

definition updateTime :: "timewindow \<Rightarrow> vstate \<Rightarrow> error + vstate" where
  "updateTime newTime s = render (s\<lparr>v_time := newTime\<rparr>)"

definition updateFilter :: "string \<Rightarrow> vstate \<Rightarrow> error + vstate" where
  "updateFilter newFilter s = render (s\<lparr>v_filter := newFilter\<rparr>)"


subsection \<open>Search\<close>

text \<open>
  \<open>updateSearch\<close> calls three builtins of the language: \<open>String.prototype.toLowerCase\<close>,
  the constructor \<open>RegExp\<close>, which throws a \<open>SyntaxError\<close> for a pattern that is not a
  regular expression, and \<open>String.prototype.search\<close>, which gives the index of the first
  match or \<open>-1\<close>. They belong to the language, not to this program, and the model takes them
  as a parameter: what is proved of \<open>updateSearch\<close> holds for whatever they compute.
\<close>

record 'r builtins =
  toLowerCase :: "string \<Rightarrow> string"
  RegExp :: "string \<Rightarrow> error + 'r"
  search :: "string \<Rightarrow> 'r \<Rightarrow> int"

text \<open>The body of \<open>nodes.each\<close> in \<open>updateSearch\<close>, run over the circles of the selection:
  it sets the class and the fill of the circle and the \<open>searched\<close> property of its datum.\<close>

fun searchNodes ::
  "'r builtins \<Rightarrow> 'r \<Rightarrow> string \<Rightarrow> node_elem list \<Rightarrow> node list
     \<Rightarrow> node_elem list \<times> node list" where
  "searchNodes B searchRegEx searchTerm [] store = ([], store)"
| "searchNodes B searchRegEx searchTerm (el # els) store =
     (let d = store ! ne_datum el;
          match = search B (toLowerCase B (getName d)) searchRegEx;
          hit = (length searchTerm > 0 \<and> match \<ge> 0);
          el' = (if hit then el\<lparr>ne_search := True, ne_fill := ''#F38630''\<rparr>
                 else el\<lparr>ne_search := False, ne_fill := getColor d\<rparr>);
          store' = store[ne_datum el := d\<lparr>n_searched := hit\<rparr>];
          rest = searchNodes B searchRegEx searchTerm els store'
      in (el' # fst rest, snd rest))"

text \<open>\<open>updateSearch\<close>: the expression is built first, and the error of \<open>RegExp\<close> is the
  error of \<open>updateSearch\<close>; then \<open>nodes.each\<close> throws while \<open>nodes\<close> is still \<open>null\<close>.\<close>

definition updateSearch :: "'r builtins \<Rightarrow> string \<Rightarrow> vstate \<Rightarrow> error + vstate" where
  "updateSearch B searchTerm s =
     (case RegExp B (toLowerCase B searchTerm) of
        Inl err \<Rightarrow> Inl err
      | Inr searchRegEx \<Rightarrow>
          if nodes_set s
          then (let r = searchNodes B searchRegEx searchTerm (nodes_sel s) (v_nodes s)
                in Inr (s\<lparr>nodes_sel := fst r, v_nodes := snd r\<rparr>))
          else Inl TypeError)"

section \<open>The time slider (module \<open>slider\<close>)\<close>

subsection \<open>Numbers\<close>

text \<open>
  The numbers of the slider are IEEE binary64 values, and every arithmetic operation
  rounds its exact result to the nearest of them, a tie going to the even significand.
  \<open>fl\<close> is this rounding on the rationals: a value of magnitude in \<open>[2^e, 2^(e+1))\<close> is
  rounded to a multiple of \<open>2^(e-52)\<close>, and to a multiple of \<open>2^-1074\<close> below the normal
  range. The overflow to an infinity, NaN and the sign of zero are left out.
\<close>

definition pow2 :: "int \<Rightarrow> rat" where
  "pow2 e = (if 0 \<le> e then 2 ^ nat e else 1 / 2 ^ nat (- e))"

function ilog2 :: "rat \<Rightarrow> int" where
  "ilog2 q = (if q \<le> 0 then 0
              else if 2 \<le> q then ilog2 (q / 2) + 1
              else if q < 1 then ilog2 (2 * q) - 1
              else 0)"
  by pat_completeness auto
termination
proof (relation "measure (\<lambda>q. if 1 \<le> q then nat \<lfloor>q\<rfloor> else nat \<lfloor>1 / q\<rfloor> + 1)")
  show "wf (measure (\<lambda>q::rat. if 1 \<le> q then nat \<lfloor>q\<rfloor> else nat \<lfloor>1 / q\<rfloor> + 1))" by simp
next
  fix q :: rat
  assume "\<not> q \<le> 0" and q: "2 \<le> q"
  have "\<lfloor>q / 2\<rfloor> \<le> \<lfloor>q - 1\<rfloor>" using q by (intro floor_mono) simp
  then have "\<lfloor>q / 2\<rfloor> < \<lfloor>q\<rfloor>" by simp
  moreover have "1 \<le> \<lfloor>q / 2\<rfloor>" using q by simp
  ultimately have "nat \<lfloor>q / 2\<rfloor> < nat \<lfloor>q\<rfloor>" by linarith
  then show "(q / 2, q) \<in> measure (\<lambda>q. if 1 \<le> q then nat \<lfloor>q\<rfloor> else nat \<lfloor>1 / q\<rfloor> + 1)"
    using q by simp
next
  fix q :: rat
  assume p: "\<not> q \<le> 0" and "\<not> 2 \<le> q" and q: "q < 1"
  have one: "1 \<le> \<lfloor>1 / q\<rfloor>" using p q by (simp add: le_floor_iff)
  show "(2 * q, q) \<in> measure (\<lambda>q. if 1 \<le> q then nat \<lfloor>q\<rfloor> else nat \<lfloor>1 / q\<rfloor> + 1)"
  proof (cases "1 \<le> 2 * q")
    case True
    have "\<lfloor>2 * q\<rfloor> < 2" using q by (simp add: floor_less_iff)
    then have "nat \<lfloor>2 * q\<rfloor> < 2" by linarith
    moreover from one have "1 \<le> nat \<lfloor>1 / q\<rfloor>" by linarith
    ultimately have "nat \<lfloor>2 * q\<rfloor> < nat \<lfloor>1 / q\<rfloor> + 1" by linarith
    with True q show ?thesis by simp
  next
    case False
    then have "2 \<le> 1 / q" using p by (simp add: field_simps)
    then have "1 / (2 * q) \<le> 1 / q - 1" by (simp add: field_simps)
    then have "\<lfloor>1 / (2 * q)\<rfloor> \<le> \<lfloor>1 / q - 1\<rfloor>" by (rule floor_mono)
    then have "\<lfloor>1 / (2 * q)\<rfloor> < \<lfloor>1 / q\<rfloor>" by simp
    moreover have "0 \<le> \<lfloor>1 / (2 * q)\<rfloor>" using p by simp
    ultimately have "nat \<lfloor>1 / (2 * q)\<rfloor> + 1 < nat \<lfloor>1 / q\<rfloor> + 1" by linarith
    with False q show ?thesis by simp
  qed
qed

declare ilog2.simps [simp del]

definition roundEven :: "rat \<Rightarrow> int" where
  "roundEven m =
     (let n = \<lfloor>m\<rfloor>; d = m - of_int n
      in if d < 1 / 2 then n else if 1 / 2 < d then n + 1 else if even n then n else n + 1)"

definition fl :: "rat \<Rightarrow> rat" where
  "fl q =
     (if q = 0 then 0
      else (let k = max (ilog2 \<bar>q\<bar> - 52) (- 1074)
            in sgn q * of_int (roundEven (\<bar>q\<bar> / pow2 k)) * pow2 k))"

text \<open>The four operations of the language on numbers.\<close>

definition fadd :: "rat \<Rightarrow> rat \<Rightarrow> rat" where
  "fadd a b = fl (a + b)"

definition fsub :: "rat \<Rightarrow> rat \<Rightarrow> rat" where
  "fsub a b = fl (a - b)"

definition fmul :: "rat \<Rightarrow> rat \<Rightarrow> rat" where
  "fmul a b = fl (a * b)"

definition fdiv :: "rat \<Rightarrow> rat \<Rightarrow> rat" where
  "fdiv a b = fl (a / b)"

subsection \<open>The scale\<close>

text \<open>The slider is 500 pixels wide: 600 less the two margins of 50.\<close>

definition width :: rat where
  "width = 600 - 50 - 50"

definition clamp :: "rat \<Rightarrow> rat \<Rightarrow> rat \<Rightarrow> rat" where
  "clamp lo hi v = max lo (min hi v)"

text \<open>
  The scale \<open>x\<close> is \<open>d3.scaleLinear().domain([0, timeSteps]).range([0, width]).clamp(true)\<close>.
  d3 clamps the argument to the domain, normalises it to \<open>t = (v - 0) / (timeSteps - 0)\<close>
  and interpolates \<open>0 * (1 - t) + width * t\<close>; the subtractions of zero and the term that is
  zero are exact, which leaves a division and a multiplication that round. A domain that
  runs downwards is swapped with the range: \<open>t = (v - timeSteps) / (0 - timeSteps)\<close> and
  \<open>width * (1 - t) + 0 * t\<close>. A domain of the one point 0 is normalised to the constant
  \<open>1 / 2\<close>. (\<open>timeSteps\<close> is \<open>config.animation.steps || 10\<close> and so never 0.)

  \<open>x.invert\<close> normalises the pixel to \<open>t = (px - 0) / (width - 0)\<close>, interpolates
  \<open>0 * (1 - t) + timeSteps * t\<close> and clamps the result to the domain.
\<close>

definition x_scale :: "rat \<Rightarrow> rat \<Rightarrow> rat" where
  "x_scale timeSteps v =
     (let c = clamp (min 0 timeSteps) (max 0 timeSteps) v
      in if timeSteps = 0 then fmul width (1 / 2)
         else if 0 < timeSteps then fmul width (fdiv c timeSteps)
         else fmul width (fsub 1 (fdiv (fsub c timeSteps) (fsub 0 timeSteps))))"

definition x_invert :: "rat \<Rightarrow> rat \<Rightarrow> rat" where
  "x_invert timeSteps px =
     clamp (min 0 timeSteps) (max 0 timeSteps) (fmul timeSteps (fdiv px width))"

text \<open>
  \<open>parseInt(formatInt(v))\<close> with \<open>formatInt = d3.format(",.0f")\<close>: the format rounds to an
  integer (a half away from zero, as \<open>toFixed(0)\<close> does) and writes it with a comma between
  groups of three digits; \<open>parseInt\<close> reads the digits up to the first comma, that is the
  leading group.
\<close>

definition toFixed0 :: "rat \<Rightarrow> int" where
  "toFixed0 v = (if v < 0 then - \<lfloor>- v + 1 / 2\<rfloor> else \<lfloor>v + 1 / 2\<rfloor>)"

function leadingGroup :: "nat \<Rightarrow> nat" where
  "leadingGroup n = (if n < 1000 then n else leadingGroup (n div 1000))"
  by pat_completeness auto
termination
  by (relation "measure id") auto

declare leadingGroup.simps [simp del]

definition parseInt_formatInt :: "rat \<Rightarrow> int" where
  "parseInt_formatInt v =
     (let n = toFixed0 v
      in if n < 0 then - int (leadingGroup (nat (- n))) else int (leadingGroup (nat n)))"

subsection \<open>update\<close>

record slider =
  pastDelta :: rat
  futureDelta :: rat
  aggregationDelta :: rat
  timeSteps :: rat
  currentValue :: rat
  handle_cx :: rat
  pastHandle_cx :: rat
  aggregationHandle_cx :: rat
  futureHandle_cx :: rat

text \<open>The first part of \<open>update(value)\<close>: the four handles are moved (the track lines and
  the label, which nothing reads back, are left out). An attribute holds the shortest
  decimal string that reads back as the number it was set to, so that the handles give
  back the numbers they were given.\<close>

definition moveHandles :: "rat \<Rightarrow> slider \<Rightarrow> slider" where
  "moveHandles v sl =
     (let ts = timeSteps sl
      in sl\<lparr>handle_cx := x_scale ts v,
            pastHandle_cx :=
              (if x_scale ts v > x_scale ts (pastDelta sl)
               then fsub (x_scale ts v) (x_scale ts (pastDelta sl)) else 0),
            aggregationHandle_cx :=
              (if fadd (x_scale ts v) (x_scale ts (aggregationDelta sl)) < width
               then fadd (x_scale ts v) (x_scale ts (aggregationDelta sl)) else width),
            futureHandle_cx :=
              (if fadd (fadd (x_scale ts v) (x_scale ts (aggregationDelta sl)))
                    (x_scale ts (futureDelta sl)) < width
               then fadd (fadd (x_scale ts v) (x_scale ts (aggregationDelta sl)))
                      (x_scale ts (futureDelta sl))
               else width)\<rparr>)"

text \<open>The second part: the window is read back from the handles and the value.\<close>

definition newTime :: "rat \<Rightarrow> slider \<Rightarrow> timewindow" where
  "newTime v sl =
     \<lparr>w_past = of_int (parseInt_formatInt (x_invert (timeSteps sl) (pastHandle_cx sl))),
      w_time = of_int (parseInt_formatInt v),
      w_aggregated = of_int (parseInt_formatInt (fadd v (aggregationDelta sl))),
      w_future = of_int (parseInt_formatInt (x_invert (timeSteps sl) (futureHandle_cx sl)))\<rparr>"

definition update :: "rat \<Rightarrow> slider \<Rightarrow> vstate \<Rightarrow> slider \<times> (error + vstate)" where
  "update v sl s =
     (let sl' = moveHandles v sl in (sl', updateTime (newTime v sl') s))"

text \<open>The drag of the primary handle to the pixel \<open>px\<close>.\<close>

definition drag :: "rat \<Rightarrow> slider \<Rightarrow> vstate \<Rightarrow> slider \<times> (error + vstate)" where
  "drag px sl s = update (x_invert (timeSteps sl) px) (sl\<lparr>currentValue := px\<rparr>) s"

section \<open>Example data and auxiliary notions\<close>

definition mkNode :: "string \<Rightarrow> node" where
  "mkNode u = \<lparr>n_uid = u, n_label = None, n_group = None, n_color = None, n_size = None,
     n_text = None, n_euclidean = None, n_time = None, n_searched = False\<rparr>"

definition mkLink :: "string \<Rightarrow> string \<Rightarrow> rat option \<Rightarrow> link" where
  "mkLink a b t = \<lparr>l_source = a, l_target = b, l_time = t, l_weight = None\<rparr>"

definition mkEdge :: "nat \<Rightarrow> nat \<Rightarrow> string \<Rightarrow> rat option \<Rightarrow> edge" where
  "mkEdge a b u t = \<lparr>e_source = a, e_target = b, e_uid = u, e_time = t, e_weight = None\<rparr>"

definition mkWindow :: "rat \<Rightarrow> rat \<Rightarrow> rat \<Rightarrow> rat \<Rightarrow> timewindow" where
  "mkWindow p t a f = \<lparr>w_past = p, w_time = t, w_aggregated = a, w_future = f\<rparr>"

definition mkChange :: "string \<Rightarrow> rat \<Rightarrow> string option \<Rightarrow> string option \<Rightarrow> change" where
  "mkChange u t g c = \<lparr>c_uid = u, c_time = t, c_label = None, c_group = g, c_color = c,
     c_size = None, c_text = None\<rparr>"

definition mkSlider :: "rat \<Rightarrow> rat \<Rightarrow> rat \<Rightarrow> rat \<Rightarrow> slider" where
  "mkSlider ts pd ad fd = \<lparr>pastDelta = pd, futureDelta = fd, aggregationDelta = ad,
     timeSteps = ts, currentValue = 0, handle_cx = 0, pastHandle_cx = 0,
     aggregationHandle_cx = 0, futureHandle_cx = 0\<rparr>"

text \<open>The scenario of the specification: nodes a, b, c, an edge a-b at time 1 and an edge
  b-c at time 2, mounted in temporal mode with the force layout.\<close>

definition scenario :: payload where
  "scenario = \<lparr>p_nodes = [mkNode ''a'', mkNode ''b'', mkNode ''c''],
     p_links = [mkLink ''a'' ''b'' (Some 1), mkLink ''b'' ''c'' (Some 2)],
     p_changes = []\<rparr>"

definition ab :: edge where
  "ab = mkEdge 0 1 ''a_b'' (Some 1)"

definition bc :: edge where
  "bc = mkEdge 1 2 ''b_c'' (Some 2)"


text \<open>Sequencing of calls that may throw, and the observable part of a scene.\<close>

definition andThen :: "error + 'a \<Rightarrow> ('a \<Rightarrow> error + 'b) \<Rightarrow> error + 'b" where
  "andThen r f = (case r of Inl err \<Rightarrow> Inl err | Inr v \<Rightarrow> f v)"

definition sceneEdges :: "error + vstate \<Rightarrow> error + edge_elem list" where
  "sceneEdges r = (case r of Inl err \<Rightarrow> Inl err | Inr s \<Rightarrow> Inr (edges_sel s))"

definition sceneNodes :: "error + vstate \<Rightarrow> error + node_elem list" where
  "sceneNodes r = (case r of Inl err \<Rightarrow> Inl err | Inr s \<Rightarrow> Inr (nodes_sel s))"

definition mkLine :: "edge \<Rightarrow> bool \<Rightarrow> edge_elem" where
  "mkLine d active = \<lparr>ee_datum = d, ee_active = active, ee_highlight = False\<rparr>"


text \<open>The scenario as \<open>setupData\<close> leaves it, and with the time window set.\<close>

definition scenarioLoaded :: vstate where
  "scenarioLoaded = (network True ''force'' 4 16)\<lparr>
     v_nodes := [mkNode ''a'', mkNode ''b'', mkNode ''c''],
     v_links := [ab, bc],
     v_countExtent := Some (6, 6),
     v_linkedByIndex := [''a_b'', ''b_c'']\<rparr>"

definition scenarioAt :: "timewindow \<Rightarrow> vstate" where
  "scenarioAt tw = scenarioLoaded\<lparr>v_time := tw\<rparr>"

definition untimed :: edge where
  "untimed = mkEdge 0 1 ''a_b'' None"

definition storeNodes :: "error + vstate \<Rightarrow> error + node list" where
  "storeNodes r = (case r of Inl err \<Rightarrow> Inl err | Inr s \<Rightarrow> Inr (v_nodes s))"

text \<open>A node a, blue at time 0 and red at time 1: the payload, and the state that
  \<open>setupData\<close> makes of it.\<close>

definition blueRedData :: payload where
  "blueRedData = \<lparr>p_nodes = [(mkNode ''a'')\<lparr>n_color := Some ''blue''\<rparr>], p_links = [],
     p_changes = [mkChange ''a'' 1 None (Some ''red''), mkChange ''a'' 0 None (Some ''blue'')]\<rparr>"

definition blueRed :: vstate where
  "blueRed = (network True ''force'' 4 16)\<lparr>
     v_nodes := [(mkNode ''a'')\<lparr>n_color := Some ''blue''\<rparr>],
     v_changes := [mkChange ''a'' 1 None (Some ''red''), mkChange ''a'' 0 None (Some ''blue'')],
     v_countExtent := Some (6, 6)\<rparr>"

text \<open>The changes of the current time that \<open>findIndex\<close> resolves to the node \<open>i\<close>, and
  their application in turn to a node.\<close>

definition changesFor :: "vstate \<Rightarrow> nat \<Rightarrow> change list" where
  "changesFor s i =
     filter (\<lambda>c. findIndex (v_nodes s) (filterNodes (v_filter s) (v_nodes s)) (c_uid c) = Some i)
       (filter (\<lambda>d. c_time d = w_time (v_time s)) (v_changes s))"

definition patched :: "change list \<Rightarrow> node \<Rightarrow> node" where
  "patched cs d = fold (\<lambda>c d'. assign d' c) cs d"

text \<open>A link whose two ids are uids of nodes; an edge that resolves a link; an edge of the
  scene whose two endpoints are node objects of the store with the uid of a rendered
  circle.\<close>

definition known :: "node list \<Rightarrow> link \<Rightarrow> bool" where
  "known store l = (l_source l \<in> n_uid ` set store \<and> l_target l \<in> n_uid ` set store)"

definition resolves :: "node list \<Rightarrow> link \<Rightarrow> edge \<Rightarrow> bool" where
  "resolves store l d =
     (e_source d < length store \<and> n_uid (store ! e_source d) = l_source l \<and>
      e_target d < length store \<and> n_uid (store ! e_target d) = l_target l \<and>
      e_uid d = l_source l @ ''_'' @ l_target l \<and> e_time d = l_time l)"

definition attached :: "vstate \<Rightarrow> edge \<Rightarrow> bool" where
  "attached s d =
     (e_source d < length (v_nodes s) \<and> e_target d < length (v_nodes s) \<and>
      n_uid (v_nodes s ! e_source d) \<in> (\<lambda>el. n_uid (v_nodes s ! ne_datum el)) ` set (nodes_sel s) \<and>
      n_uid (v_nodes s ! e_target d) \<in> (\<lambda>el. n_uid (v_nodes s ! ne_datum el)) ` set (nodes_sel s))"

definition dangling :: payload where
  "dangling = \<lparr>p_nodes = [mkNode ''a'', mkNode ''b''],
     p_links = [mkLink ''a'' ''b'' None, mkLink ''a'' ''z'' None], p_changes = []\<rparr>"

text \<open>No change of the current time moves a node to another group while a group filter
  is on (always so outside temporal mode and under the filter \<open>all\<close>).\<close>

definition groupStable :: "vstate \<Rightarrow> bool" where
  "groupStable s =
     (\<not> v_temporal s \<or> v_filter s = ''all'' \<or>
      list_all (\<lambda>c. c_group c = None)
        (filter (\<lambda>d. c_time d = w_time (v_time s)) (v_changes s)))"

text \<open>A node a of the group g1, which a change of time 5 moves to the group g2.\<close>

definition regroup :: payload where
  "regroup = \<lparr>p_nodes = [(mkNode ''a'')\<lparr>n_group := Some ''g1''\<rparr>], p_links = [],
     p_changes = [mkChange ''a'' 5 (Some ''g2'') None]\<rparr>"

definition mkCircle :: "nat \<Rightarrow> rat \<Rightarrow> string \<Rightarrow> node_elem" where
  "mkCircle d r fill =
     \<lparr>ne_datum = d, ne_r = Some r, ne_fill = fill, ne_highlight = False, ne_search = False\<rparr>"

text \<open>The circles of a scene are bound to distinct node objects of the store.\<close>

definition sceneBound :: "vstate \<Rightarrow> bool" where
  "sceneBound s =
     (distinct (map ne_datum (nodes_sel s)) \<and>
      list_all (\<lambda>el. ne_datum el < length (v_nodes s)) (nodes_sel s))"

text \<open>
  An engine for the examples. The characters of the model are the code units below 256,
  the letters of Latin-1, and \<open>lowerCase\<close> lowers them as \<open>toLowerCase\<close> does: A to Z,
  and the letters from 0xC0 to 0xDE but the sign 0xD7, move up by 0x20. A pattern of
  ordinary characters, dots and the assertions \<open>^\<close> and \<open>$\<close> is a regular expression: an
  ordinary character matches itself, the dot every character but a line terminator, \<open>^\<close>
  the start of the string and \<open>$\<close> its end. Such a pattern with an opening parenthesis in
  it is a group that is not closed, a \<open>SyntaxError\<close>. What the engine makes of any other
  pattern is not specified; no property depends on it.
\<close>

definition lower_char :: "char \<Rightarrow> char" where
  "lower_char c =
     (case map_of
        (zip (''ABCDEFGHIJKLMNOPQRSTUVWXYZ'' @
          [CHR 0xC0, CHR 0xC1, CHR 0xC2, CHR 0xC3, CHR 0xC4, CHR 0xC5, CHR 0xC6, CHR
          0xC7, CHR 0xC8, CHR 0xC9, CHR 0xCA, CHR 0xCB, CHR 0xCC, CHR 0xCD, CHR
          0xCE, CHR 0xCF, CHR 0xD0, CHR 0xD1, CHR 0xD2, CHR 0xD3, CHR 0xD4, CHR
          0xD5, CHR 0xD6, CHR 0xD8, CHR 0xD9, CHR 0xDA, CHR 0xDB, CHR 0xDC, CHR
          0xDD, CHR 0xDE])
             (''abcdefghijklmnopqrstuvwxyz'' @
          [CHR 0xE0, CHR 0xE1, CHR 0xE2, CHR 0xE3, CHR 0xE4, CHR 0xE5, CHR 0xE6, CHR
          0xE7, CHR 0xE8, CHR 0xE9, CHR 0xEA, CHR 0xEB, CHR 0xEC, CHR 0xED, CHR
          0xEE, CHR 0xEF, CHR 0xF0, CHR 0xF1, CHR 0xF2, CHR 0xF3, CHR 0xF4, CHR
          0xF5, CHR 0xF6, CHR 0xF8, CHR 0xF9, CHR 0xFA, CHR 0xFB, CHR 0xFC, CHR
          0xFD, CHR 0xFE])) c of
        None \<Rightarrow> c
      | Some l \<Rightarrow> l)"

definition lowerCase :: "string \<Rightarrow> string" where
  "lowerCase str = map lower_char str"

datatype atom = Lit char | AnyChar | Bol | Eol

definition syntaxCharacter :: "char \<Rightarrow> bool" where
  "syntaxCharacter c = (c \<in> set (CHR 0x5C # ''^$.*+?()[]{}|''))"

fun pattern :: "string \<Rightarrow> atom list option" where
  "pattern [] = Some []"
| "pattern (c # cs) =
     (if c = CHR ''.'' then map_option ((#) AnyChar) (pattern cs)
      else if c = CHR ''^'' then map_option ((#) Bol) (pattern cs)
      else if c = CHR ''$'' then map_option ((#) Eol) (pattern cs)
      else if syntaxCharacter c then None
      else map_option ((#) (Lit c)) (pattern cs))"

definition unterminated :: "string \<Rightarrow> bool" where
  "unterminated p =
     (CHR ''('' \<in> set p \<and>
      list_all (\<lambda>c. c \<in> set ''(.^$'' \<or> \<not> syntaxCharacter c) p)"

text \<open>Whether the atoms match a prefix of the string; \<open>atStart\<close> tells whether the string
  is the whole input.\<close>

fun matchHere :: "atom list \<Rightarrow> bool \<Rightarrow> string \<Rightarrow> bool" where
  "matchHere [] atStart str = True"
| "matchHere (Bol # as) atStart str = (atStart \<and> matchHere as atStart str)"
| "matchHere (Eol # as) atStart str = (str = [] \<and> matchHere as atStart str)"
| "matchHere (Lit a # as) atStart [] = False"
| "matchHere (Lit a # as) atStart (c # cs) = (a = c \<and> matchHere as False cs)"
| "matchHere (AnyChar # as) atStart [] = False"
| "matchHere (AnyChar # as) atStart (c # cs) =
     (c \<noteq> CHR 0x0A \<and> c \<noteq> CHR 0x0D \<and> matchHere as False cs)"

text \<open>The index of the first match, or \<open>-1\<close>.\<close>

fun searchFrom :: "atom list \<Rightarrow> bool \<Rightarrow> string \<Rightarrow> int" where
  "searchFrom rx atStart [] = (if matchHere rx atStart [] then 0 else -1)"
| "searchFrom rx atStart (c # cs) =
     (if matchHere rx atStart (c # cs) then 0
      else (let r = searchFrom rx False cs in if r < 0 then -1 else r + 1))"

definition engine :: "atom list builtins" where
  "engine =
     \<lparr>toLowerCase = lowerCase,
      RegExp = (\<lambda>p. case pattern p of
                       Some rx \<Rightarrow> Inr rx
                     | None \<Rightarrow> if unterminated p then Inl SyntaxError else undefined),
      search = (\<lambda>str rx. searchFrom rx True str)\<rparr>"

text \<open>Whether \<open>updateSearch\<close> marks a node: the term is not empty and the expression
  matches somewhere in the lower-cased name.\<close>

definition marks :: "'r builtins \<Rightarrow> 'r \<Rightarrow> string \<Rightarrow> node \<Rightarrow> bool" where
  "marks B rx searchTerm d =
     (length searchTerm > 0 \<and> search B (toLowerCase B (getName d)) rx \<ge> 0)"

text \<open>The circles and the store that a search of the engine leaves.\<close>

definition searchIn :: "string \<Rightarrow> error + vstate \<Rightarrow> error + node_elem list \<times> node list" where
  "searchIn searchTerm r =
     (case andThen r (updateSearch engine searchTerm) of
        Inl err \<Rightarrow> Inl err
      | Inr s \<Rightarrow> Inr (nodes_sel s, v_nodes s))"

text \<open>A node abc of the group g1 and a node xa.cx of the group g2.\<close>

definition abc :: payload where
  "abc = \<lparr>p_nodes = [(mkNode ''abc'')\<lparr>n_group := Some ''g1''\<rparr>,
                      (mkNode ''xa.cx'')\<lparr>n_group := Some ''g2''\<rparr>],
     p_links = [], p_changes = []\<rparr>"

text \<open>The state the mount of \<open>abc\<close> leaves, outside temporal mode.\<close>

definition abcScene :: vstate where
  "abcScene = (network False ''force'' 4 16)\<lparr>
     v_nodes := p_nodes abc,
     v_countExtent := Some (6, 6),
     v_simNodes := [0, 1],
     v_forces := setupNetworkLayout [],
     nodes_sel := [mkCircle 0 10 ''#99ccff'', mkCircle 1 10 ''#99ccff''],
     nodes_set := True\<rparr>"

text \<open>What \<open>updateSearch\<close> does to one circle.\<close>

definition searched ::
  "'r builtins \<Rightarrow> 'r \<Rightarrow> string \<Rightarrow> node list \<Rightarrow> node_elem \<Rightarrow> node_elem" where
  "searched B rx searchTerm store el =
     (if marks B rx searchTerm (store ! ne_datum el)
      then el\<lparr>ne_search := True, ne_fill := ''#F38630''\<rparr>
      else el\<lparr>ne_search := False, ne_fill := getColor (store ! ne_datum el)\<rparr>)"

text \<open>
  Half a unit in the last place of 1, a relative bound on the error of one rounding; the
  slack that the roundings of \<open>update\<close> stay below; and a marker that is the rounding to
  an integer (a half away from zero) of a number no further than the slack from \<open>c\<close>: it
  is \<open>c\<close> rounded, unless \<open>c\<close> is within the slack of a half, where it is one of the two
  neighbours.
\<close>

definition ulp :: rat where
  "ulp = 1 / 2 ^ 53"

definition slack :: rat where
  "slack = 1 / 10 ^ 9"

definition roundsTo :: "rat \<Rightarrow> rat \<Rightarrow> bool" where
  "roundsTo m c =
     (m = of_int (toFixed0 (c - slack)) \<or> m = of_int (toFixed0 (c + slack)))"

text \<open>A rational in lowest terms, for the evaluation of \<open>fl\<close>.\<close>

definition nrm :: "rat \<Rightarrow> rat" where
  "nrm q = q"

section \<open>Rounding to binary64\<close>

text \<open>Equations that evaluate \<open>fl\<close> on fractions in lowest terms.\<close>

lemma nrm_code [code]: "nrm q = (case quotient_of q of (a, b) \<Rightarrow> Fract a b)"
  by (cases "quotient_of q") (simp add: nrm_def quotient_of_div Fract_of_int_quotient)

lemma pow2_code [code]:
  "pow2 e = (if 0 \<le> e then of_int (2 ^ nat e) else Fract 1 (2 ^ nat (- e)))"
  by (simp add: pow2_def Fract_of_int_quotient)

lemma ilog2_code [code]:
  "ilog2 q = (if q \<le> 0 then 0
              else if 2 \<le> q then ilog2 (nrm (q / 2)) + 1
              else if q < 1 then ilog2 (nrm (2 * q)) - 1
              else 0)"
  unfolding nrm_def by (rule ilog2.simps)

lemma fl_code [code]:
  "fl q = (let n = nrm q
           in if n = 0 then 0
              else (let k = max (ilog2 \<bar>n\<bar> - 52) (- 1074); p = pow2 k
                    in nrm (sgn n * of_int (roundEven (nrm (\<bar>n\<bar> / p))) * p)))"
  by (simp add: fl_def nrm_def Let_def)

text \<open>The value, the sign and the error of a rounding.\<close>

lemma pow2_pos [simp]: "0 < pow2 e"
  by (simp add: pow2_def)

lemma pow2_nonzero [simp]: "pow2 e \<noteq> 0"
  by (simp add: pow2_def)

lemma pow2_nonneg [simp]: "0 \<le> pow2 e"
  using pow2_pos [of e] by (simp add: less_imp_le)

lemma pow2_le_one: "e \<le> 0 \<Longrightarrow> pow2 e \<le> 1"
  by (cases "e = 0") (simp_all add: pow2_def)

lemma pow2_Suc: "pow2 (e + 1) = 2 * pow2 e"
proof (cases "0 \<le> e")
  case True
  then show ?thesis by (simp add: pow2_def nat_add_distrib)
next
  case False
  then have "nat (- e) = Suc (nat (- (e + 1)))" by simp
  with False show ?thesis by (auto simp: pow2_def)
qed

lemma pow2_pred: "pow2 (e - 1) = pow2 e / 2"
  using pow2_Suc [of "e - 1"] by simp

lemma ilog2_bounds: "0 < q \<Longrightarrow> pow2 (ilog2 q) \<le> q \<and> q < pow2 (ilog2 q + 1)"
proof (induction q rule: ilog2.induct)
  case (1 q)
  show ?case
  proof (cases "2 \<le> q")
    case True
    with 1 have "pow2 (ilog2 (q / 2)) \<le> q / 2 \<and> q / 2 < pow2 (ilog2 (q / 2) + 1)" by simp
    moreover from True "1.prems" have "ilog2 q = ilog2 (q / 2) + 1"
      by (subst ilog2.simps) simp
    moreover have "pow2 (ilog2 (q / 2) + 1 + 1) = 2 * pow2 (ilog2 (q / 2) + 1)"
      by (rule pow2_Suc)
    moreover have "pow2 (ilog2 (q / 2) + 1) = 2 * pow2 (ilog2 (q / 2))"
      by (rule pow2_Suc)
    ultimately show ?thesis by simp
  next
    case False
    show ?thesis
    proof (cases "q < 1")
      case True
      with 1 False have "pow2 (ilog2 (2 * q)) \<le> 2 * q \<and> 2 * q < pow2 (ilog2 (2 * q) + 1)"
        by simp
      moreover from True False "1.prems" have "ilog2 q = ilog2 (2 * q) - 1"
        by (subst ilog2.simps) simp
      moreover have "pow2 (ilog2 (2 * q) - 1 + 1) = 2 * pow2 (ilog2 (2 * q) - 1)"
        by (rule pow2_Suc)
      moreover have "pow2 (ilog2 (2 * q) + 1) = 2 * pow2 (ilog2 (2 * q))"
        by (rule pow2_Suc)
      ultimately show ?thesis by simp
    next
      case n: False
      with False "1.prems" have "ilog2 q = 0" by (subst ilog2.simps) simp
      with n False show ?thesis by (simp add: pow2_def)
    qed
  qed
qed

lemma roundEven_near: "\<bar>of_int (roundEven m) - m\<bar> \<le> 1 / 2"
proof -
  define n where "n = \<lfloor>m\<rfloor>"
  have b: "of_int n \<le> m" "m < of_int n + 1" unfolding n_def by linarith+
  have r: "roundEven m =
      (if m - of_int n < 1 / 2 then n else if 1 / 2 < m - of_int n then n + 1
       else if even n then n else n + 1)"
    by (simp add: roundEven_def Let_def n_def)
  show ?thesis
  proof (cases "m - of_int n < 1 / 2")
    case True
    with b r show ?thesis by simp
  next
    case False
    show ?thesis
    proof (cases "1 / 2 < m - of_int n")
      case True
      with False b r show ?thesis by simp
    next
      case h: False
      with False have "m - of_int n = 1 / 2" by simp
      with r show ?thesis by (cases "even n") simp_all
    qed
  qed
qed

lemma pow2_minus_53: "pow2 (e - 53) = pow2 e / 2 ^ 53"
proof -
  have "pow2 (e - int n) = pow2 e / 2 ^ n" for n
  proof (induction n)
    case 0
    then show ?case by simp
  next
    case (Suc n)
    have "pow2 (e - int (Suc n)) = pow2 (e - int n - 1)" by (simp add: algebra_simps)
    then show ?case by (simp add: pow2_pred Suc)
  qed
  from this [of 53] show ?thesis by simp
qed

lemma fl_error: "\<bar>fl q - q\<bar> \<le> (\<bar>q\<bar> + 1) / 2 ^ 53"
proof (cases "q = 0")
  case True
  then show ?thesis by (simp add: fl_def)
next
  case False
  define e where "e = ilog2 \<bar>q\<bar>"
  define k where "k = max (e - 52) (- 1074)"
  define n where "n = roundEven (\<bar>q\<bar> / pow2 k)"
  have flq: "fl q = sgn q * of_int n * pow2 k"
    using False by (simp add: fl_def Let_def e_def k_def n_def)
  have "fl q - q = sgn q * (of_int n * pow2 k) - sgn q * \<bar>q\<bar>"
    by (simp add: flq sgn_mult_abs mult.assoc)
  also have "\<dots> = sgn q * (of_int n * pow2 k - \<bar>q\<bar>)"
    by (simp add: right_diff_distrib)
  also have "of_int n * pow2 k - \<bar>q\<bar> = (of_int n - \<bar>q\<bar> / pow2 k) * pow2 k"
    by (simp add: left_diff_distrib)
  finally have "\<bar>fl q - q\<bar> = \<bar>of_int n - \<bar>q\<bar> / pow2 k\<bar> * pow2 k"
    using False by (simp add: abs_mult abs_sgn_eq)
  also have "\<dots> \<le> 1 / 2 * pow2 k"
    using roundEven_near [of "\<bar>q\<bar> / pow2 k"] by (simp add: n_def mult_right_mono)
  also have "\<dots> = pow2 (k - 1)" by (simp add: pow2_pred)
  finally have b: "\<bar>fl q - q\<bar> \<le> pow2 (k - 1)" .
  from False have le: "pow2 e \<le> \<bar>q\<bar>" using ilog2_bounds [of "\<bar>q\<bar>"] by (simp add: e_def)
  show ?thesis
  proof (cases "- 1074 \<le> e - 52")
    case True
    then have "k - 1 = e - 53" by (simp add: k_def)
    then have "pow2 (k - 1) = pow2 e / 2 ^ 53" by (simp only: pow2_minus_53)
    also have "\<dots> \<le> \<bar>q\<bar> / 2 ^ 53" using le by (simp add: divide_right_mono)
    also have "\<dots> \<le> (\<bar>q\<bar> + 1) / 2 ^ 53" by (simp add: divide_right_mono)
    finally show ?thesis using b by linarith
  next
    case False
    then have "k - 1 = (- 1022) - 53" by (simp add: k_def)
    then have "pow2 (k - 1) = pow2 (- 1022) / 2 ^ 53" by (simp only: pow2_minus_53)
    also have "\<dots> \<le> 1 / 2 ^ 53"
      using pow2_le_one [of "- 1022"] by (simp only: divide_right_mono zero_le_power zero_le_numeral neg_numeral_le_zero)
    also have "\<dots> \<le> (\<bar>q\<bar> + 1) / 2 ^ 53" by (simp add: divide_right_mono)
    finally show ?thesis using b by linarith
  qed
qed

lemma roundEven_nonneg: "0 \<le> m \<Longrightarrow> 0 \<le> roundEven m"
  by (auto simp: roundEven_def Let_def)

lemma fl_nonneg: "0 \<le> q \<Longrightarrow> 0 \<le> fl q"
proof (cases "q = 0")
  case True
  then show ?thesis by (simp add: fl_def)
next
  case False
  assume q: "0 \<le> q"
  let ?k = "max (ilog2 \<bar>q\<bar> - 52) (- 1074)"
  from q have "0 \<le> \<bar>q\<bar> / pow2 ?k" by simp
  then have "0 \<le> roundEven (\<bar>q\<bar> / pow2 ?k)" by (rule roundEven_nonneg)
  then have "0 \<le> of_int (roundEven (\<bar>q\<bar> / pow2 ?k)) * pow2 ?k" by simp
  with q False show ?thesis by (simp add: fl_def Let_def sgn_if)
qed


section \<open>Properties of the renderer\<close>

subsection \<open>The edges of a rendered scene\<close>

lemma scenario_loaded:
  "setupData scenario (network True ''force'' 4 16) = Inr scenarioLoaded"
  by code_simp

lemma blueRed_loaded:
  "setupData blueRedData (network True ''force'' 4 16) = Inr blueRed"
  by code_simp

lemma bindKey_datum: "map ee_datum (bindKey old used ds) = ds"
  by (induction ds arbitrary: used) (auto simp: enterEdge_def split: option.splits)

lemma renderEdges_datum: "ee_datum ` set (renderEdges old ds) = set ds"
  using bindKey_datum [of old "[]" ds] unfolding renderEdges_def
  by (metis list.set_map)

lemma render_temporal_edges:
  assumes "render s = Inr s'" and "v_temporal s"
  shows "\<exists>fes. filterEdges (updateTemporalNodes (v_time s) (v_nodes s)
                   (filterNodes (v_filter s) (v_nodes s)) (v_changes s))
                  (v_links s) (filterNodes (v_filter s) (v_nodes s)) = Inr fes \<and>
          edges_sel s' = renderTemporalEdges (v_time s)
             (renderEdges (edges_sel s) (filterTemporalEdges (v_time s) fes))"
  using assms unfolding render_def Let_def
  by (auto split: sum.splits if_splits)

lemma render_temporal_edge:
  assumes "render s = Inr s'" and "v_temporal s" and "el \<in> set (edges_sel s')"
  shows "ee_active el = edgeActive (v_time s) (ee_datum el) \<and>
         inWindow (v_time s) (ee_datum el)"
proof -
  from render_temporal_edges [OF assms(1,2)] obtain fes where
    sel: "edges_sel s' = renderTemporalEdges (v_time s)
             (renderEdges (edges_sel s) (filterTemporalEdges (v_time s) fes))"
    by blast
  from assms(3) sel obtain el0 where
    el0: "el0 \<in> set (renderEdges (edges_sel s) (filterTemporalEdges (v_time s) fes))"
    and el: "el = el0\<lparr>ee_active := edgeActive (v_time s) (ee_datum el0)\<rparr>"
    by (auto simp: renderTemporalEdges_def)
  from el0 have "ee_datum el0 \<in> set (filterTemporalEdges (v_time s) fes)"
    using renderEdges_datum by blast
  then have "inWindow (v_time s) (ee_datum el0)"
    by (simp add: filterTemporalEdges_def)
  with el show ?thesis by simp
qed

lemma sceneEdges_InrD:
  assumes "sceneEdges r = Inr els"
  obtains s' where "r = Inr s'" and "edges_sel s' = els"
  using assms by (auto simp: sceneEdges_def split: sum.splits)

subsection \<open>Classification of the rendered edges\<close>

text \<open>
  Claim C1, as the code has it. In temporal mode every rendered edge has its time in
  \<open>[past, future]\<close>; an edge whose time lies in \<open>[past, time)\<close> or in
  \<open>(aggregated, future]\<close> has the class \<open>edge_active\<close> switched off (observed but not
  active), and an edge whose time lies in \<open>[time, aggregated]\<close> has it switched on. The
  claim states the two classes the other way round.
\<close>

theorem C1_lookout_edges_inactive:
  assumes "v_temporal s" and "render s = Inr s'" and "el \<in> set (edges_sel s')"
    and "e_time (ee_datum el) = Some t"
  shows "(w_past (v_time s) \<le> t \<and> t \<le> w_future (v_time s)) \<and>
         ((w_past (v_time s) \<le> t \<and> t < w_time (v_time s)) \<or>
          (w_aggregated (v_time s) < t \<and> t \<le> w_future (v_time s))
            \<longrightarrow> \<not> ee_active el) \<and>
         (w_time (v_time s) \<le> t \<and> t \<le> w_aggregated (v_time s) \<longrightarrow> ee_active el)"
  using render_temporal_edge [OF assms(2,1,3)] assms(4)
  by (auto simp: edgeActive_def inWindow_def)

theorem C1_lookout_edges_inactive_witness:
  "v_temporal (scenarioAt (mkWindow 0 1 1 2)) \<and>
   sceneEdges (render (scenarioAt (mkWindow 0 1 1 2))) = Inr [mkLine ab True, mkLine bc False] \<and>
   e_time (ee_datum (mkLine bc False)) = Some 2 \<and>
   w_aggregated (v_time (scenarioAt (mkWindow 0 1 1 2))) < 2 \<and>
   2 \<le> w_future (v_time (scenarioAt (mkWindow 0 1 1 2))) \<and>
   \<not> ee_active (mkLine bc False)"
proof -
  let ?s = "scenarioAt (mkWindow 0 1 1 2)"
  have t: "v_temporal ?s" by code_simp
  have r: "sceneEdges (render ?s) = Inr [mkLine ab True, mkLine bc False]" by code_simp
  have d: "e_time (ee_datum (mkLine bc False)) = Some 2" by code_simp
  have w: "w_aggregated (v_time ?s) < 2" "2 \<le> w_future (v_time ?s)" by code_simp+
  from r obtain s' where s': "render ?s = Inr s'"
    and sel: "edges_sel s' = [mkLine ab True, mkLine bc False]"
    by (rule sceneEdges_InrD)
  have "mkLine bc False \<in> set (edges_sel s')" by (simp add: sel)
  from C1_lookout_edges_inactive [OF t s' this d] w
  have "\<not> ee_active (mkLine bc False)" by blast
  with t r d w show ?thesis by blast
qed

text \<open>
  Against claim C1 as stated: in the scenario, under the window past 0, time 1,
  aggregated 1, future 2, the edge a-b (time 1, in \<open>[time, aggregated]\<close>) is rendered
  active, where the claim has it faded, and the edge b-c (time 2, in
  \<open>(aggregated, future]\<close>) is rendered not active, where the claim has it active.
\<close>

theorem C1_counterexample:
  "sceneEdges (render (scenarioAt (mkWindow 0 1 1 2))) =
     Inr [\<lparr>ee_datum = ab, ee_active = True, ee_highlight = False\<rparr>,
          \<lparr>ee_datum = bc, ee_active = False, ee_highlight = False\<rparr>] \<and>
   e_time ab = Some 1 \<and> e_time bc = Some 2"
  by code_simp

text \<open>
  Claim C4. The scenario is mounted and the window past 0, time 1, aggregated 1, future 2
  is pushed: the scene has exactly the edges a-b, active, and b-c, not active. Then the
  window past 1, time 2, aggregated 2, future 3 is pushed: the scene has exactly a-b,
  not active, and b-c, active. The two windows are the ones the slider computes at the
  times 1 and 2 with the deltas past 1, aggregation 0, future 1 on a timeline of 10 steps;
  on a timeline that ends at 2 the second window has future 2 and the scene is the same.
\<close>

theorem C4_scenario:
  "sceneEdges (andThen (chart scenario (network True ''force'' 4 16))
       (updateTime (mkWindow 0 1 1 2)))
     = Inr [mkLine ab True, mkLine bc False] \<and>
   sceneEdges (andThen (andThen (chart scenario (network True ''force'' 4 16))
       (updateTime (mkWindow 0 1 1 2))) (updateTime (mkWindow 1 2 2 3)))
     = Inr [mkLine ab False, mkLine bc True] \<and>
   newTime 1 (moveHandles 1 (mkSlider 10 1 0 1)) = mkWindow 0 1 1 2 \<and>
   newTime 2 (moveHandles 2 (mkSlider 10 1 0 1)) = mkWindow 1 2 2 3 \<and>
   sceneEdges (andThen (andThen (chart scenario (network True ''force'' 4 16))
       (updateTime (mkWindow 0 1 1 2))) (updateTime (mkWindow 1 2 2 2)))
     = Inr [mkLine ab False, mkLine bc True] \<and>
   newTime 2 (moveHandles 2 (mkSlider 2 1 0 1)) = mkWindow 1 2 2 2"
  by code_simp

subsection \<open>The temporal edge filter\<close>

text \<open>
  Claim C7. For two windows with the same past marker and \<open>future1 \<le> future2\<close>, every
  edge the temporal filter keeps under the first window it keeps under the second.
\<close>

theorem C7_filterTemporalEdges_mono_future:
  assumes "w_past tw1 = w_past tw2" and "w_future tw1 \<le> w_future tw2"
  shows "set (filterTemporalEdges tw1 es) \<subseteq> set (filterTemporalEdges tw2 es)"
  using assms by (auto simp: filterTemporalEdges_def inWindow_def split: option.splits)

theorem C7_filterTemporalEdges_mono_future_witness:
  "w_past (mkWindow 0 1 1 1) = w_past (mkWindow 0 1 1 2) \<and>
   w_future (mkWindow 0 1 1 1) \<le> w_future (mkWindow 0 1 1 2) \<and>
   filterTemporalEdges (mkWindow 0 1 1 1) [ab, bc] = [ab] \<and>
   filterTemporalEdges (mkWindow 0 1 1 2) [ab, bc] = [ab, bc] \<and>
   set (filterTemporalEdges (mkWindow 0 1 1 1) [ab, bc])
     \<subseteq> set (filterTemporalEdges (mkWindow 0 1 1 2) [ab, bc])"
proof -
  have p: "w_past (mkWindow 0 1 1 1) = w_past (mkWindow 0 1 1 2)" by code_simp
  have f: "w_future (mkWindow 0 1 1 1) \<le> w_future (mkWindow 0 1 1 2)" by code_simp
  have e1: "filterTemporalEdges (mkWindow 0 1 1 1) [ab, bc] = [ab]" by code_simp
  have e2: "filterTemporalEdges (mkWindow 0 1 1 2) [ab, bc] = [ab, bc]" by code_simp
  from C7_filterTemporalEdges_mono_future [OF p f, of "[ab, bc]"] p f e1 e2
  show ?thesis by blast
qed

text \<open>
  Claim C9. An edge with no time is dropped by the temporal filter under every window,
  whatever its endpoints; in temporal mode no line of a rendered scene is bound to it.
\<close>

theorem C9_untimed_edge_excluded:
  assumes "e_time d = None"
  shows "d \<notin> set (filterTemporalEdges tw es) \<and>
         (v_temporal s \<and> render s = Inr s' \<longrightarrow> d \<notin> ee_datum ` set (edges_sel s'))"
proof -
  have "d \<notin> set (filterTemporalEdges tw es)"
    using assms by (simp add: filterTemporalEdges_def inWindow_def)
  moreover have "d \<notin> ee_datum ` set (edges_sel s')"
    if "v_temporal s" and "render s = Inr s'"
  proof
    assume "d \<in> ee_datum ` set (edges_sel s')"
    then obtain el where "el \<in> set (edges_sel s')" and "ee_datum el = d" by auto
    with render_temporal_edge [OF that(2,1)] have "inWindow (v_time s) d" by auto
    with assms show False by (simp add: inWindow_def)
  qed
  ultimately show ?thesis by blast
qed

theorem C9_untimed_edge_excluded_witness:
  "e_time untimed = None \<and>
   filterTemporalEdges (mkWindow 0 1 1 2) [untimed, bc] = [bc] \<and>
   untimed \<notin> set (filterTemporalEdges (mkWindow 0 1 1 2) [untimed, bc]) \<and>
   v_temporal ((scenarioAt (mkWindow 0 1 1 2))\<lparr>v_links := [untimed, bc]\<rparr>) \<and>
   sceneEdges (render ((scenarioAt (mkWindow 0 1 1 2))\<lparr>v_links := [untimed, bc]\<rparr>))
     = Inr [mkLine bc False] \<and>
   untimed \<notin> ee_datum ` set [mkLine bc False]"
proof -
  let ?s = "(scenarioAt (mkWindow 0 1 1 2))\<lparr>v_links := [untimed, bc]\<rparr>"
  have u: "e_time untimed = None" by code_simp
  have f: "filterTemporalEdges (mkWindow 0 1 1 2) [untimed, bc] = [bc]" by code_simp
  have t: "v_temporal ?s" by code_simp
  have r: "sceneEdges (render ?s) = Inr [mkLine bc False]" by code_simp
  from r obtain s' where s': "render ?s = Inr s'" and sel: "edges_sel s' = [mkLine bc False]"
    by (rule sceneEdges_InrD)
  from C9_untimed_edge_excluded [OF u, of "mkWindow 0 1 1 2" "[untimed, bc]" ?s s'] t s' sel
  have "untimed \<notin> set (filterTemporalEdges (mkWindow 0 1 1 2) [untimed, bc])"
    and "untimed \<notin> ee_datum ` set [mkLine bc False]"
    by auto
  with u f t r show ?thesis by blast
qed


subsection \<open>Scheduled changes\<close>

lemma findIndex_SomeD:
  "findIndex store refs u = Some i \<Longrightarrow> i \<in> set refs \<and> n_uid (store ! i) = u"
  unfolding findIndex_def by (auto simp: find_Some_iff)

lemma applyChange_length [simp]: "length (applyChange refs c store) = length store"
  by (simp add: applyChange_def split: option.splits)

lemma applyChange_uid: "n_uid (applyChange refs c store ! j) = n_uid (store ! j)"
proof (cases "findIndex store refs (c_uid c)")
  case None
  then show ?thesis by (simp add: applyChange_def)
next
  case (Some i)
  from findIndex_SomeD [OF Some] have u: "n_uid (store ! i) = c_uid c" by simp
  show ?thesis
  proof (cases "j = i \<and> i < length store")
    case True
    with Some u show ?thesis by (simp add: applyChange_def assign_def)
  next
    case False
    with Some show ?thesis
      by (cases "i < length store") (auto simp: applyChange_def list_update_beyond)
  qed
qed

lemma findIndex_cong:
  assumes "\<And>j. n_uid (store' ! j) = n_uid (store ! j)"
  shows "findIndex store' refs u = findIndex store refs u"
  unfolding findIndex_def using assms by simp

lemma applyChange_nth:
  assumes "i < length store"
  shows "applyChange refs c store ! i =
         (if findIndex store refs (c_uid c) = Some i then assign (store ! i) c else store ! i)"
  using assms by (auto simp: applyChange_def split: option.splits)

lemma fold_applyChange_length [simp]: "length (fold (applyChange refs) cs store) = length store"
  by (induction cs arbitrary: store) simp_all

lemma fold_applyChange_uid:
  "n_uid (fold (applyChange refs) cs store ! j) = n_uid (store ! j)"
  by (induction cs arbitrary: store) (simp_all add: applyChange_uid)

lemma patched_snoc: "patched (cs @ [c]) d = assign (patched cs d) c"
  by (simp add: patched_def)

lemma patched_Cons: "patched (c # cs) d = patched cs (assign d c)"
  by (simp add: patched_def)

lemma patched_Nil: "patched [] d = d"
  by (simp add: patched_def)

lemma fold_applyChange_nth:
  assumes "i < length store"
  shows "fold (applyChange refs) cs store ! i =
         patched (filter (\<lambda>c. findIndex store refs (c_uid c) = Some i) cs) (store ! i)"
  using assms
proof (induction cs arbitrary: store)
  case Nil
  then show ?case by (simp add: patched_Nil)
next
  case (Cons c cs)
  have fi: "findIndex (applyChange refs c store) refs u = findIndex store refs u" for u
    by (rule findIndex_cong) (rule applyChange_uid)
  from Cons.prems have "i < length (applyChange refs c store)" by simp
  from Cons.IH [OF this] show ?case
    using Cons.prems by (simp add: fi applyChange_nth patched_Cons)
qed

lemma updateTemporalNodes_length [simp]:
  "length (updateTemporalNodes tw store refs cs) = length store"
  by (simp add: updateTemporalNodes_def)

lemma updateTemporalNodes_uid:
  "n_uid (updateTemporalNodes tw store refs cs ! j) = n_uid (store ! j)"
  by (simp add: updateTemporalNodes_def fold_applyChange_uid)

lemma render_fields:
  assumes "render s = Inr s'"
  shows "v_nodes s' = (if v_temporal s
                       then updateTemporalNodes (v_time s) (v_nodes s)
                              (filterNodes (v_filter s) (v_nodes s)) (v_changes s)
                       else v_nodes s)"
    and "v_temporal s' = v_temporal s" and "v_changes s' = v_changes s"
    and "v_filter s' = v_filter s" and "v_time s' = v_time s" and "v_links s' = v_links s"
    and "v_layout s' = v_layout s" and "v_countExtent s' = v_countExtent s"
    and "v_radiusMinSize s' = v_radiusMinSize s" and "v_radiusMaxSize s' = v_radiusMaxSize s"
  using assms unfolding render_def Let_def
  by (auto split: sum.splits if_splits)

lemma render_nth:
  assumes "v_temporal s" and "render s = Inr s'" and "i < length (v_nodes s)"
  shows "v_nodes s' ! i = patched (changesFor s i) (v_nodes s ! i)"
  using assms render_fields(1) [OF assms(2)]
  by (simp add: updateTemporalNodes_def fold_applyChange_nth changesFor_def)

text \<open>
  Claim C10, as the code has it. A render in temporal mode leaves in the store, at the
  node's own place, the node overwritten in turn by the changes of the current time that
  resolve to it. A later render at a time for which no change carries the node's uid
  leaves the node as it is: the values from before the change do not come back. They come
  back only when a change scheduled at that time writes them (the counterexample).
\<close>

theorem C10_change_persists:
  assumes "v_temporal s" and "render s = Inr s1" and "i < length (v_nodes s)"
  shows "v_nodes s1 ! i = patched (changesFor s i) (v_nodes s ! i) \<and>
         (updateTime tw s1 = Inr s2 \<and>
          (\<forall>c \<in> set (v_changes s). c_time c = w_time tw \<longrightarrow> c_uid c \<noteq> n_uid (v_nodes s ! i))
            \<longrightarrow> v_nodes s2 ! i = v_nodes s1 ! i)"
proof (intro conjI impI)
  show "v_nodes s1 ! i = patched (changesFor s i) (v_nodes s ! i)"
    by (rule render_nth [OF assms])
next
  assume h: "updateTime tw s1 = Inr s2 \<and>
    (\<forall>c \<in> set (v_changes s). c_time c = w_time tw \<longrightarrow> c_uid c \<noteq> n_uid (v_nodes s ! i))"
  let ?s = "s1\<lparr>v_time := tw\<rparr>"
  from h have r: "render ?s = Inr s2" by (simp add: updateTime_def)
  have t: "v_temporal ?s" using render_fields(2) [OF assms(2)] assms(1) by simp
  have len: "i < length (v_nodes ?s)"
    using render_fields(1) [OF assms(2)] assms(1,3) by simp
  have uid: "n_uid (v_nodes s1 ! i) = n_uid (v_nodes s ! i)"
    using render_fields(1) [OF assms(2)] assms(1) by (simp add: updateTemporalNodes_uid)
  have "changesFor ?s i = []"
  proof -
    have "\<not> (findIndex (v_nodes s1) (filterNodes (v_filter s1) (v_nodes s1)) (c_uid c) = Some i)"
      if "c \<in> set (v_changes s1)" and "c_time c = w_time tw" for c
    proof
      assume "findIndex (v_nodes s1) (filterNodes (v_filter s1) (v_nodes s1)) (c_uid c) = Some i"
      from findIndex_SomeD [OF this] uid have "c_uid c = n_uid (v_nodes s ! i)" by simp
      moreover from that h render_fields(3) [OF assms(2)]
      have "c_uid c \<noteq> n_uid (v_nodes s ! i)" by simp
      ultimately show False by simp
    qed
    then show ?thesis by (auto simp: changesFor_def filter_empty_conv)
  qed
  with render_nth [OF t r len] show "v_nodes s2 ! i = v_nodes s1 ! i"
    by (simp add: patched_Nil)
qed

lemma storeNodes_InrD:
  assumes "storeNodes r = Inr ns"
  obtains s' where "r = Inr s'" and "v_nodes s' = ns"
  using assms by (auto simp: storeNodes_def split: sum.splits)

lemma andThen_Inr [simp]: "andThen (Inr v) f = f v"
  by (simp add: andThen_def)

theorem C10_change_persists_witness:
  "v_temporal (blueRed\<lparr>v_time := mkWindow 0 1 1 1\<rparr>) \<and>
   0 < length (v_nodes (blueRed\<lparr>v_time := mkWindow 0 1 1 1\<rparr>)) \<and>
   v_nodes (blueRed\<lparr>v_time := mkWindow 0 1 1 1\<rparr>) = [(mkNode ''a'')\<lparr>n_color := Some ''blue''\<rparr>] \<and>
   storeNodes (render (blueRed\<lparr>v_time := mkWindow 0 1 1 1\<rparr>))
     = Inr [(mkNode ''a'')\<lparr>n_color := Some ''red'', n_time := Some 1\<rparr>] \<and>
   filter (\<lambda>c. c_time c = w_time (mkWindow 2 3 3 3))
     (v_changes (blueRed\<lparr>v_time := mkWindow 0 1 1 1\<rparr>)) = [] \<and>
   storeNodes (andThen (render (blueRed\<lparr>v_time := mkWindow 0 1 1 1\<rparr>))
       (updateTime (mkWindow 2 3 3 3)))
     = Inr [(mkNode ''a'')\<lparr>n_color := Some ''red'', n_time := Some 1\<rparr>]"
proof -
  let ?s = "blueRed\<lparr>v_time := mkWindow 0 1 1 1\<rparr>"
  let ?red = "(mkNode ''a'')\<lparr>n_color := Some ''red'', n_time := Some 1\<rparr>"
  have t: "v_temporal ?s" by code_simp
  have len: "0 < length (v_nodes ?s)" by code_simp
  have n0: "v_nodes ?s = [(mkNode ''a'')\<lparr>n_color := Some ''blue''\<rparr>]" by code_simp
  have r1: "storeNodes (render ?s) = Inr [?red]" by code_simp
  have none: "filter (\<lambda>c. c_time c = w_time (mkWindow 2 3 3 3)) (v_changes ?s) = []"
    by code_simp
  have r2: "storeNodes (andThen (render ?s) (updateTime (mkWindow 2 3 3 3))) = Inr [?red]"
    by code_simp
  from r1 obtain s1 where s1: "render ?s = Inr s1" and ns1: "v_nodes s1 = [?red]"
    by (rule storeNodes_InrD)
  from r2 s1 obtain s2 where s2: "updateTime (mkWindow 2 3 3 3) s1 = Inr s2"
    and ns2: "v_nodes s2 = [?red]"
    by (auto elim: storeNodes_InrD)
  from none have "\<forall>c \<in> set (v_changes ?s).
      c_time c = w_time (mkWindow 2 3 3 3) \<longrightarrow> c_uid c \<noteq> n_uid (v_nodes ?s ! 0)"
    by (simp add: filter_empty_conv)
  with C10_change_persists [OF t s1 len, of "mkWindow 2 3 3 3" s2] s2
  have "v_nodes s2 ! 0 = v_nodes s1 ! 0" by blast
  with t len n0 r1 none r2 show ?thesis by blast
qed

text \<open>
  Against claim C10 as stated: a node is blue, a change makes it red at time 1 and another
  makes it blue at time 0. After the mount the node is blue; rendering at time 1 makes it
  red; rendering then at the earlier time 0 gives it back the colour it had before.
\<close>

theorem C10_counterexample:
  "storeNodes (chart blueRedData (network True ''force'' 4 16))
     = Inr [(mkNode ''a'')\<lparr>n_color := Some ''blue'', n_time := Some 0\<rparr>] \<and>
   storeNodes (andThen (chart blueRedData (network True ''force'' 4 16))
       (updateTime (mkWindow 0 1 1 1)))
     = Inr [(mkNode ''a'')\<lparr>n_color := Some ''red'', n_time := Some 1\<rparr>] \<and>
   storeNodes (andThen (andThen (chart blueRedData (network True ''force'' 4 16))
       (updateTime (mkWindow 0 1 1 1))) (updateTime (mkWindow 0 0 0 0)))
     = Inr [(mkNode ''a'')\<lparr>n_color := Some ''blue'', n_time := Some 0\<rparr>]"
  by code_simp

subsection \<open>Loading and the endpoints of edges\<close>

lemma find_SomeD: "find P xs = Some y \<Longrightarrow> y \<in> set xs \<and> P y"
  by (induction xs) (auto split: if_splits)

lemma nodesMap_get_SomeD:
  "nodesMap_get store u = Some i \<Longrightarrow> i < length store \<and> n_uid (store ! i) = u"
  unfolding nodesMap_get_def by (drule find_SomeD) simp

lemma nodesMap_get_None: "nodesMap_get store u = None \<longleftrightarrow> u \<notin> n_uid ` set store"
proof -
  have "(\<exists>i. i < length store \<and> n_uid (store ! i) = u) \<longleftrightarrow> u \<in> n_uid ` set store"
    by (metis image_iff in_set_conv_nth)
  then show ?thesis
    unfolding nodesMap_get_def by (auto simp: find_None_iff)
qed

lemma setupLinks_known:
  assumes "list_all (known store) ls"
  shows "\<exists>es. setupLinks store ls = Inr es \<and> list_all2 (resolves store) ls es"
  using assms
proof (induction ls)
  case Nil
  then show ?case by simp
next
  case (Cons l ls)
  then obtain es where es: "setupLinks store ls = Inr es" "list_all2 (resolves store) ls es"
    by auto
  from Cons.prems have "l_source l \<in> n_uid ` set store" "l_target l \<in> n_uid ` set store"
    by (simp_all add: known_def)
  then obtain si ti where si: "nodesMap_get store (l_source l) = Some si"
    and ti: "nodesMap_get store (l_target l) = Some ti"
    using nodesMap_get_None [of store] by (metis not_Some_eq)
  let ?d = "\<lparr>e_source = si, e_target = ti,
             e_uid = n_uid (store ! si) @ ''_'' @ n_uid (store ! ti),
             e_time = l_time l, e_weight = l_weight l\<rparr>"
  from nodesMap_get_SomeD [OF si] nodesMap_get_SomeD [OF ti]
  have "resolves store l ?d" by (simp add: resolves_def)
  with es si ti show ?case by simp
qed

lemma setupLinks_unknown:
  assumes "\<not> list_all (known store) ls"
  shows "setupLinks store ls = Inl TypeError"
  using assms
proof (induction ls)
  case Nil
  then show ?case by simp
next
  case (Cons l ls)
  show ?case
  proof (cases "known store l")
    case True
    with Cons have "setupLinks store ls = Inl TypeError" by simp
    then show ?thesis by (simp split: option.splits)
  next
    case False
    then have "nodesMap_get store (l_source l) = None \<or> nodesMap_get store (l_target l) = None"
      by (simp add: known_def nodesMap_get_None)
    then show ?thesis by (auto split: option.splits)
  qed
qed

lemma filterEdges_member:
  assumes "filterEdges store es refs = Inr fes" and "d \<in> set fes"
  shows "d \<in> set es \<and> e_source d < length store \<and> e_target d < length store \<and>
         n_uid (store ! e_source d) \<in> (\<lambda>i. n_uid (store ! i)) ` set refs \<and>
         n_uid (store ! e_target d) \<in> (\<lambda>i. n_uid (store ! i)) ` set refs"
  using assms
proof (induction es arbitrary: fes)
  case Nil
  then show ?case by simp
next
  case (Cons e es)
  show ?case
  proof (cases "uidOf store (e_source e)")
    case (Inl err)
    with Cons.prems show ?thesis by simp
  next
    case (Inr su)
    then have src: "e_source e < length store" "su = n_uid (store ! e_source e)"
      by (auto simp: uidOf_def split: if_splits)
    show ?thesis
    proof (cases "su \<in> set (map (\<lambda>i. n_uid (store ! i)) refs)")
      case False
      with Inr Cons.prems have "filterEdges store es refs = Inr fes" by simp
      from Cons.IH [OF this Cons.prems(2)] show ?thesis by simp
    next
      case True
      with Inr Cons.prems obtain tu r where
        tu: "uidOf store (e_target e) = Inr tu" and r: "filterEdges store es refs = Inr r"
        and fes: "fes = (if tu \<in> set (map (\<lambda>i. n_uid (store ! i)) refs) then e # r else r)"
        by (auto split: sum.splits)
      from tu have tgt: "e_target e < length store" "tu = n_uid (store ! e_target e)"
        by (auto simp: uidOf_def split: if_splits)
      show ?thesis
      proof (cases "d \<in> set r")
        case True
        from Cons.IH [OF r this] show ?thesis by simp
      next
        case False
        with fes Cons.prems(2) have "d = e" "tu \<in> set (map (\<lambda>i. n_uid (store ! i)) refs)"
          by (auto split: if_splits)
        with src tgt True show ?thesis by auto
      qed
    qed
  qed
qed

lemma filterEdges_valid:
  assumes "list_all (\<lambda>d. e_source d < length store \<and> e_target d < length store) es"
  shows "\<exists>fes. filterEdges store es refs = Inr fes"
  using assms
  by (induction es) (auto simp: uidOf_def)

lemma bindIndex_datum: "map ne_datum (bindIndex old ds) = ds"
  by (induction old ds rule: bindIndex.induct) (simp_all add: enterNode_def)

lemma renderNodes_datum: "map ne_datum (renderNodes s store refs) = refs"
  using bindIndex_datum [of "nodes_sel s" refs]
  by (simp add: renderNodes_def comp_def)

lemma render_nodes_sel:
  assumes "render s = Inr s'"
  shows "nodes_sel s' = renderNodes s (v_nodes s') (filterNodes (v_filter s) (v_nodes s))"
  using assms unfolding render_def Let_def
  by (auto split: sum.splits if_splits)

lemma render_edges_sel:
  assumes "render s = Inr s'"
  shows "\<exists>fes. filterEdges (v_nodes s') (v_links s) (filterNodes (v_filter s) (v_nodes s)) = Inr fes \<and>
           edges_sel s' =
             (if v_temporal s
              then renderTemporalEdges (v_time s)
                     (renderEdges (edges_sel s) (filterTemporalEdges (v_time s) fes))
              else renderEdges (edges_sel s) fes)"
  using assms unfolding render_def Let_def
  by (auto split: sum.splits if_splits)

lemma renderTemporalEdges_datum:
  "ee_datum ` set (renderTemporalEdges tw sel) = ee_datum ` set sel"
  by (auto simp: renderTemporalEdges_def image_iff)

lemma render_edge_attached:
  assumes "render s = Inr s'" and "el \<in> set (edges_sel s')"
  shows "ee_datum el \<in> set (v_links s) \<and> attached s' (ee_datum el)"
proof -
  let ?refs = "filterNodes (v_filter s) (v_nodes s)"
  from render_edges_sel [OF assms(1)] obtain fes where
    fes: "filterEdges (v_nodes s') (v_links s) ?refs = Inr fes"
    and sel: "edges_sel s' =
             (if v_temporal s
              then renderTemporalEdges (v_time s)
                     (renderEdges (edges_sel s) (filterTemporalEdges (v_time s) fes))
              else renderEdges (edges_sel s) fes)"
    by blast
  have "ee_datum ` set (edges_sel s') \<subseteq> set fes"
    by (auto simp: sel renderTemporalEdges_datum renderEdges_datum filterTemporalEdges_def)
  with assms(2) have "ee_datum el \<in> set fes" by auto
  from filterEdges_member [OF fes this]
  have m: "ee_datum el \<in> set (v_links s)"
      "e_source (ee_datum el) < length (v_nodes s')"
      "e_target (ee_datum el) < length (v_nodes s')"
      "n_uid (v_nodes s' ! e_source (ee_datum el)) \<in> (\<lambda>i. n_uid (v_nodes s' ! i)) ` set ?refs"
      "n_uid (v_nodes s' ! e_target (ee_datum el)) \<in> (\<lambda>i. n_uid (v_nodes s' ! i)) ` set ?refs"
    by simp_all
  have "set ?refs = ne_datum ` set (nodes_sel s')"
    using renderNodes_datum [of s "v_nodes s'" ?refs] render_nodes_sel [OF assms(1)]
    by (metis list.set_map)
  then have "(\<lambda>i. n_uid (v_nodes s' ! i)) ` set ?refs =
             (\<lambda>el. n_uid (v_nodes s' ! ne_datum el)) ` set (nodes_sel s')"
    by (simp add: image_image)
  with m show ?thesis by (simp add: attached_def)
qed


lemma render_total:
  assumes "list_all (\<lambda>d. e_source d < length (v_nodes s) \<and> e_target d < length (v_nodes s))
             (v_links s)"
    and "v_layout s \<noteq> ''euclidean''"
  shows "\<exists>s'. render s = Inr s'"
proof -
  let ?refs = "filterNodes (v_filter s) (v_nodes s)"
  let ?store = "if v_temporal s
                then updateTemporalNodes (v_time s) (v_nodes s) ?refs (v_changes s)
                else v_nodes s"
  have "length ?store = length (v_nodes s)" by simp
  with assms(1) have
    "list_all (\<lambda>d. e_source d < length ?store \<and> e_target d < length ?store) (v_links s)"
    by simp
  from filterEdges_valid [OF this] obtain fes where
    "filterEdges ?store (v_links s) ?refs = Inr fes" by blast
  with assms(2) show ?thesis
    unfolding render_def Let_def by (simp split: sum.splits)
qed

lemma resolves_valid:
  assumes "list_all2 (resolves store) ls es"
  shows "list_all (\<lambda>d. e_source d < length store \<and> e_target d < length store) es"
  using assms by (induction rule: list_all2_induct) (simp_all add: resolves_def)

text \<open>
  Claim C5, as the code has it. When the two ids of every link are uids of nodes of the
  payload, \<open>setupData\<close> succeeds and every edge has both endpoints resolved to node
  objects with those ids, and the mount succeeds too (the euclidean layout apart, which
  needs coordinates). When some link has an id that is no node's uid, \<open>setupData\<close> throws
  a TypeError and so does the mount: nothing is rendered, no edge is dropped in silence.
  After a mount that succeeds, both endpoints of every rendered edge are node objects of
  the store that carry the uid of a rendered circle.
\<close>

theorem C5_load:
  "(list_all (known (p_nodes data)) (p_links data) \<longrightarrow>
      (\<exists>s1. setupData data s = Inr s1 \<and> v_nodes s1 = p_nodes data \<and>
            list_all2 (resolves (p_nodes data)) (p_links data) (v_links s1)) \<and>
      (v_layout s \<noteq> ''euclidean'' \<longrightarrow> (\<exists>s'. chart data s = Inr s'))) \<and>
   (\<not> list_all (known (p_nodes data)) (p_links data) \<longrightarrow>
      setupData data s = Inl TypeError \<and> chart data s = Inl TypeError) \<and>
   (\<forall>s'. chart data s = Inr s' \<longrightarrow> list_all (\<lambda>el. attached s' (ee_datum el)) (edges_sel s'))"
proof (intro conjI impI allI)
  assume k: "list_all (known (p_nodes data)) (p_links data)"
  from setupLinks_known [OF k] obtain es where
    es: "setupLinks (p_nodes data) (p_links data) = Inr es"
    and res: "list_all2 (resolves (p_nodes data)) (p_links data) es"
    by blast
  then show "\<exists>s1. setupData data s = Inr s1 \<and> v_nodes s1 = p_nodes data \<and>
            list_all2 (resolves (p_nodes data)) (p_links data) (v_links s1)"
    by (simp add: setupData_def)
  assume l: "v_layout s \<noteq> ''euclidean''"
  from es obtain s1 where s1: "setupData data s = Inr s1" and n1: "v_nodes s1 = p_nodes data"
    and l1: "v_links s1 = es" and y1: "v_layout s1 = v_layout s"
    by (simp add: setupData_def)
  let ?s = "s1\<lparr>nodes_sel := [], edges_sel := []\<rparr>"
  from resolves_valid [OF res] n1 l1 have
    "list_all (\<lambda>d. e_source d < length (v_nodes ?s) \<and> e_target d < length (v_nodes ?s))
       (v_links ?s)"
    by simp
  moreover from l y1 have "v_layout ?s \<noteq> ''euclidean''" by simp
  ultimately obtain s' where "render ?s = Inr s'" using render_total by blast
  with s1 show "\<exists>s'. chart data s = Inr s'" by (simp add: chart_def)
next
  assume "\<not> list_all (known (p_nodes data)) (p_links data)"
  from setupLinks_unknown [OF this]
  show "setupData data s = Inl TypeError" and "chart data s = Inl TypeError"
    by (simp_all add: setupData_def chart_def)
next
  fix s'
  assume "chart data s = Inr s'"
  then obtain s1 where "render (s1\<lparr>nodes_sel := [], edges_sel := []\<rparr>) = Inr s'"
    by (auto simp: chart_def split: sum.splits)
  from render_edge_attached [OF this]
  show "list_all (\<lambda>el. attached s' (ee_datum el)) (edges_sel s')"
    by (simp add: list_all_iff)
qed

text \<open>
  Against claim C5 as stated: a payload with the nodes a and b, a link a-b and a link from
  a to the unknown id z. The claim has the link a-z dropped in silence and no error; the
  load throws a TypeError.
\<close>

theorem C5_counterexample:
  "p_nodes dangling = [mkNode ''a'', mkNode ''b''] \<and>
   p_links dangling = [mkLink ''a'' ''b'' None, mkLink ''a'' ''z'' None] \<and>
   setupData dangling (network False ''force'' 4 16) = Inl TypeError \<and>
   chart dangling (network False ''force'' 4 16) = Inl TypeError"
  by code_simp

theorem C5_load_witness:
  "list_all (known (p_nodes scenario)) (p_links scenario) \<and>
   v_layout (network False ''force'' 4 16) \<noteq> ''euclidean'' \<and>
   sceneEdges (chart scenario (network False ''force'' 4 16))
     = Inr [mkLine ab True, mkLine bc True] \<and>
   \<not> list_all (known (p_nodes dangling)) (p_links dangling) \<and>
   setupData dangling (network False ''force'' 4 16) = Inl TypeError \<and>
   chart dangling (network False ''force'' 4 16) = Inl TypeError"
proof -
  let ?n = "network False ''force'' 4 16"
  have k: "list_all (known (p_nodes scenario)) (p_links scenario)" by code_simp
  have l: "v_layout ?n \<noteq> ''euclidean''" by code_simp
  have r: "sceneEdges (chart scenario ?n) = Inr [mkLine ab True, mkLine bc True]"
    by code_simp
  have nk: "\<not> list_all (known (p_nodes dangling)) (p_links dangling)" by code_simp
  from C5_load [of scenario ?n] k l have "\<exists>s'. chart scenario ?n = Inr s'" by blast
  moreover from C5_load [of dangling ?n] nk
  have "setupData dangling ?n = Inl TypeError" and "chart dangling ?n = Inl TypeError"
    by blast+
  ultimately show ?thesis using k l r nk by blast
qed

subsection \<open>Rendering twice\<close>

lemma find_append_skip:
  "\<forall>y \<in> set xs. \<not> P y \<Longrightarrow> find P (xs @ ys) = find P ys"
  by (induction xs) simp_all

lemma ee_datum_same [simp]: "ee_datum el = d \<Longrightarrow> el\<lparr>ee_datum := d\<rparr> = el"
  by auto

lemma bindKey_again:
  fixes h :: "edge_elem \<Rightarrow> edge_elem"
  assumes hd: "\<And>el. ee_datum (h el) = ee_datum el" and hh: "\<And>el. h (h el) = h el"
    and pre: "\<forall>el \<in> set pre. e_uid (ee_datum el) \<in> set used2"
    and sub: "set used \<subseteq> set used2"
    and inv: "\<forall>k \<in> set used2. k \<in> set used \<or> find (\<lambda>el. e_uid (ee_datum el) = k) old = None"
  shows "map h (bindKey (pre @ map h (bindKey old used ds)) used2 ds) = map h (bindKey old used ds)"
  using pre sub inv
proof (induction ds arbitrary: pre used used2)
  case Nil
  then show ?case by simp
next
  case (Cons d ds)
  let ?k = "e_uid d"
  let ?P = "\<lambda>el. e_uid (ee_datum el) = ?k"
  show ?case
  proof (cases "?k \<in> set used2")
    case True
    with Cons.prems have none: "(if ?k \<in> set used then None else find ?P old) = None"
      by auto
    let ?x = "enterEdge d"
    let ?R = "bindKey old used ds"
    have first: "bindKey old used (d # ds) = ?x # ?R"
      using none by simp
    have kx: "e_uid (ee_datum (h ?x)) \<in> set used2"
      using True by (simp add: hd enterEdge_def)
    have "map h (bindKey ((pre @ [h ?x]) @ map h ?R) used2 ds) = map h ?R"
      by (rule Cons.IH) (use Cons.prems kx in auto)
    moreover have "bindKey (pre @ h ?x # map h ?R) used2 (d # ds) =
                   ?x # bindKey (pre @ h ?x # map h ?R) used2 ds"
      using True by simp
    ultimately show ?thesis
      by (simp add: first del: bindKey.simps)
  next
    case False
    with Cons.prems have nu: "?k \<notin> set used" by auto
    define x where "x = (case find ?P old of Some el \<Rightarrow> el\<lparr>ee_datum := d\<rparr> | None \<Rightarrow> enterEdge d)"
    define used' where "used' = (case find ?P old of Some el \<Rightarrow> ?k # used | None \<Rightarrow> used)"
    let ?R = "bindKey old used' ds"
    have first: "bindKey old used (d # ds) = x # ?R"
      using nu by (simp add: x_def used'_def split: option.splits)
    have dx: "ee_datum x = d"
      by (simp add: x_def enterEdge_def split: option.splits)
    have skip: "\<forall>y \<in> set pre. \<not> ?P y"
      using Cons.prems(1) False by auto
    have fnd: "find ?P (pre @ h x # map h ?R) = Some (h x)"
      by (simp add: find_append_skip [OF skip] hd dx)
    have second: "bindKey (pre @ h x # map h ?R) used2 (d # ds) =
                  h x # bindKey (pre @ h x # map h ?R) (?k # used2) ds"
      using False fnd by (simp add: hd dx)
    have "map h (bindKey ((pre @ [h x]) @ map h ?R) (?k # used2) ds) = map h ?R"
    proof (rule Cons.IH)
      show "\<forall>el \<in> set (pre @ [h x]). e_uid (ee_datum el) \<in> set (?k # used2)"
        using Cons.prems(1) by (auto simp: hd dx)
      show "set used' \<subseteq> set (?k # used2)"
        using Cons.prems(2) by (auto simp: used'_def split: option.splits)
      show "\<forall>k \<in> set (?k # used2). k \<in> set used' \<or> find (\<lambda>el. e_uid (ee_datum el) = k) old = None"
        using Cons.prems(3) by (auto simp: used'_def split: option.splits)
    qed
    then show ?thesis
      by (simp add: first second hh del: bindKey.simps)
  qed
qed

lemma renderEdges_again:
  assumes "\<And>el. ee_datum (h el) = ee_datum el" and "\<And>el. h (h el) = h el"
  shows "map h (renderEdges (map h (renderEdges old ds)) ds) = map h (renderEdges old ds)"
  using bindKey_again [of h "[]" "[]" "[]" old ds, OF assms]
  by (simp add: renderEdges_def)

lemma renderEdges_idem:
  "renderEdges (renderEdges old ds) ds = renderEdges old ds"
  using renderEdges_again [of "\<lambda>el. el" old ds] by simp

lemma renderTemporalEdges_idem:
  "renderTemporalEdges tw (renderEdges (renderTemporalEdges tw (renderEdges old ds)) ds) =
   renderTemporalEdges tw (renderEdges old ds)"
  using renderEdges_again [of "\<lambda>el. el\<lparr>ee_active := edgeActive tw (ee_datum el)\<rparr>" old ds]
  by (simp add: renderTemporalEdges_def)

lemma bindIndex_same: "map ne_datum els = ds \<Longrightarrow> bindIndex els ds = els"
  by (induction els ds rule: bindIndex.induct) auto


lemma render_alt:
  "render s =
     (case filterEdges (renderStore s) (v_links s) (filterNodes (v_filter s) (v_nodes s)) of
        Inl err \<Rightarrow> Inl err
      | Inr fes \<Rightarrow>
          (case layoutForces s (consideredEdges s fes) of
             Inl err \<Rightarrow> Inl err
           | Inr frc \<Rightarrow> Inr (rendered s (consideredEdges s fes) frc)))"
  unfolding render_def Let_def renderStore_def consideredEdges_def layoutForces_def rendered_def
  by (simp split: sum.splits)

lemma over_idem:
  "(case a of None \<Rightarrow> (case a of None \<Rightarrow> v | Some y \<Rightarrow> Some y) | Some y \<Rightarrow> Some y) =
   (case a of None \<Rightarrow> v | Some y \<Rightarrow> Some y)"
  by (cases a) simp_all

lemma over_absorb:
  "(case a of None \<Rightarrow> (case b of None \<Rightarrow> (case a of None \<Rightarrow> v | Some y \<Rightarrow> Some y)
                               | Some z \<Rightarrow> Some z)
            | Some y \<Rightarrow> Some y) =
   (case a of None \<Rightarrow> (case b of None \<Rightarrow> v | Some z \<Rightarrow> Some z) | Some y \<Rightarrow> Some y)"
  by (cases a; cases b) simp_all

lemma assign_idem: "assign (assign d c) c = assign d c"
  by (simp add: assign_def over_idem cong del: option.case_cong_weak)

lemma assign_absorb: "assign (assign (assign d c) e) c = assign (assign d e) c"
  by (simp add: assign_def over_absorb cong del: option.case_cong_weak)

lemma assign_patched_cong:
  "assign a c = assign b c \<Longrightarrow> assign (patched ds a) c = assign (patched ds b) c"
proof (induction ds arbitrary: a b)
  case Nil
  then show ?case by (simp add: patched_Nil)
next
  case (Cons e ds)
  have "assign (assign a e) c = assign (assign (assign a c) e) c"
    by (simp add: assign_absorb)
  also have "\<dots> = assign (assign (assign b c) e) c" by (simp add: Cons.prems)
  also have "\<dots> = assign (assign b e) c" by (simp add: assign_absorb)
  finally have "assign (assign a e) c = assign (assign b e) c" .
  from Cons.IH [OF this] show ?case by (simp add: patched_Cons)
qed

lemma patched_idem: "patched cs (patched cs d) = patched cs d"
proof (induction cs arbitrary: d rule: rev_induct)
  case Nil
  then show ?case by (simp add: patched_Nil)
next
  case (snoc c cs)
  have "assign (assign (patched cs d) c) c = assign (patched cs d) c"
    by (rule assign_idem)
  from assign_patched_cong [OF this, of cs]
  have "assign (patched cs (assign (patched cs d) c)) c = assign (patched cs (patched cs d)) c" .
  then show ?case by (simp add: patched_snoc snoc.IH)
qed

lemma fold_applyChange_idem:
  "fold (applyChange refs) cs (fold (applyChange refs) cs store) = fold (applyChange refs) cs store"
proof (rule nth_equalityI)
  show "length (fold (applyChange refs) cs (fold (applyChange refs) cs store)) =
        length (fold (applyChange refs) cs store)" by simp
next
  fix i
  assume "i < length (fold (applyChange refs) cs (fold (applyChange refs) cs store))"
  then have i: "i < length store" by simp
  let ?store' = "fold (applyChange refs) cs store"
  let ?csi = "filter (\<lambda>c. findIndex store refs (c_uid c) = Some i) cs"
  have fi: "findIndex ?store' refs u = findIndex store refs u" for u
    by (rule findIndex_cong) (rule fold_applyChange_uid)
  from i have i': "i < length ?store'" by simp
  have "fold (applyChange refs) cs ?store' ! i =
        patched (filter (\<lambda>c. findIndex ?store' refs (c_uid c) = Some i) cs) (?store' ! i)"
    by (rule fold_applyChange_nth [OF i'])
  also have "\<dots> = patched ?csi (?store' ! i)"
    by (simp only: fi)
  also have "?store' ! i = patched ?csi (store ! i)"
    by (rule fold_applyChange_nth [OF i])
  also have "patched ?csi (patched ?csi (store ! i)) = patched ?csi (store ! i)"
    by (rule patched_idem)
  also have "\<dots> = ?store' ! i"
    by (rule fold_applyChange_nth [OF i, symmetric])
  finally show "fold (applyChange refs) cs ?store' ! i = ?store' ! i" .
qed

lemma updateTemporalNodes_idem:
  "updateTemporalNodes tw (updateTemporalNodes tw store refs cs) refs cs =
   updateTemporalNodes tw store refs cs"
  by (simp add: updateTemporalNodes_def fold_applyChange_idem)

lemma applyChange_group:
  assumes "c_group c = None"
  shows "n_group (applyChange refs c store ! j) = n_group (store ! j)"
proof (cases "findIndex store refs (c_uid c)")
  case None
  then show ?thesis by (simp add: applyChange_def)
next
  case (Some i)
  show ?thesis
  proof (cases "j = i \<and> i < length store")
    case True
    with Some assms show ?thesis by (simp add: applyChange_def assign_def)
  next
    case False
    with Some show ?thesis
      by (cases "i < length store") (auto simp: applyChange_def list_update_beyond)
  qed
qed

lemma fold_applyChange_group:
  assumes "list_all (\<lambda>c. c_group c = None) cs"
  shows "n_group (fold (applyChange refs) cs store ! j) = n_group (store ! j)"
  using assms by (induction cs arbitrary: store) (simp_all add: applyChange_group)

lemma filterNodes_cong:
  assumes "length store' = length store"
    and "flt \<noteq> ''all'' \<Longrightarrow> (\<And>j. n_group (store' ! j) = n_group (store ! j))"
  shows "filterNodes flt store' = filterNodes flt store"
  using assms by (simp add: filterNodes_def)

lemma renderStore_length [simp]: "length (renderStore s) = length (v_nodes s)"
  by (simp add: renderStore_def)

lemma filterNodes_renderStore:
  assumes "groupStable s"
  shows "filterNodes (v_filter s) (renderStore s) = filterNodes (v_filter s) (v_nodes s)"
proof (rule filterNodes_cong)
  show "length (renderStore s) = length (v_nodes s)" by simp
next
  fix j
  assume "v_filter s \<noteq> ''all''"
  with assms show "n_group (renderStore s ! j) = n_group (v_nodes s ! j)"
    by (auto simp: groupStable_def renderStore_def updateTemporalNodes_def
          fold_applyChange_group)
qed

lemma scaleRadius_cong:
  assumes "v_countExtent s' = v_countExtent s" and "v_radiusMinSize s' = v_radiusMinSize s"
    and "v_radiusMaxSize s' = v_radiusMaxSize s"
  shows "scaleRadius s' = scaleRadius s"
  using assms by (simp add: scaleRadius_def fun_eq_iff split: option.splits)

lemma renderNodes_again:
  assumes "nodes_sel s' = renderNodes s store refs" and "scaleRadius s' = scaleRadius s"
  shows "renderNodes s' store refs = renderNodes s store refs"
proof -
  have "bindIndex (nodes_sel s') refs = nodes_sel s'"
    by (rule bindIndex_same) (simp add: assms(1) renderNodes_datum)
  then show ?thesis
    by (simp add: renderNodes_def assms)
qed


lemma render_again:
  assumes "filterNodes (v_filter s) (renderStore s) = filterNodes (v_filter s) (v_nodes s)"
    and "render s = Inr s1"
  shows "render s1 = Inr s1"
proof -
  let ?refs = "filterNodes (v_filter s) (v_nodes s)"
  from assms(2) obtain fes frc where
    fes: "filterEdges (renderStore s) (v_links s) ?refs = Inr fes"
    and frc: "layoutForces s (consideredEdges s fes) = Inr frc"
    and s1: "s1 = rendered s (consideredEdges s fes) frc"
    by (auto simp: render_alt split: sum.splits)
  let ?ce = "consideredEdges s fes"
  have same: "v_temporal s1 = v_temporal s" "v_filter s1 = v_filter s" "v_time s1 = v_time s"
    "v_links s1 = v_links s" "v_changes s1 = v_changes s" "v_layout s1 = v_layout s"
    "v_countExtent s1 = v_countExtent s" "v_radiusMinSize s1 = v_radiusMinSize s"
    "v_radiusMaxSize s1 = v_radiusMaxSize s"
    by (simp_all add: s1 rendered_def)
  have nodes1: "v_nodes s1 = renderStore s" and sim1: "v_simNodes s1 = ?refs"
    and frc1: "v_forces s1 = frc" and alpha1: "v_alpha s1 = 1" and set1: "nodes_set s1"
    and sel1: "nodes_sel s1 = renderNodes s (renderStore s) ?refs"
    and edg1: "edges_sel s1 =
         (if v_temporal s
          then renderTemporalEdges (v_time s) (renderEdges (edges_sel s) ?ce)
          else renderEdges (edges_sel s) ?ce)"
    by (simp_all add: s1 rendered_def)
  have refs1: "filterNodes (v_filter s1) (v_nodes s1) = ?refs"
    by (simp add: same nodes1 assms(1))
  have store1: "renderStore s1 = renderStore s"
  proof (cases "v_temporal s")
    case True
    have "renderStore s1 = updateTemporalNodes (v_time s) (renderStore s) ?refs (v_changes s)"
      using True refs1 by (simp add: renderStore_def [of s1] same nodes1)
    also have "\<dots> = renderStore s"
      using True by (simp add: renderStore_def [of s] updateTemporalNodes_idem)
    finally show ?thesis .
  next
    case False
    then show ?thesis by (simp add: renderStore_def [of s1] same nodes1)
  qed
  have ce1: "consideredEdges s1 fes = ?ce"
    by (simp add: consideredEdges_def same)
  have "layoutForces s1 ?ce = layoutForces s ?ce"
    by (simp only: layoutForces_def same store1)
  with frc have lf1: "layoutForces s1 ?ce = Inr frc" by simp
  have nodes2: "renderNodes s1 (renderStore s) ?refs = nodes_sel s1"
    unfolding sel1
    by (rule renderNodes_again [OF sel1 scaleRadius_cong]) (simp_all add: same)
  have edges2: "v_temporal s \<Longrightarrow>
      renderTemporalEdges (v_time s) (renderEdges (edges_sel s1) ?ce) = edges_sel s1"
    "\<not> v_temporal s \<Longrightarrow> renderEdges (edges_sel s1) ?ce = edges_sel s1"
    by (simp_all add: edg1 renderTemporalEdges_idem renderEdges_idem)
  have "rendered s1 ?ce frc =
        s1\<lparr>v_nodes := renderStore s, v_simNodes := ?refs, v_forces := frc,
           nodes_sel := nodes_sel s1, nodes_set := True, edges_sel := edges_sel s1,
           v_alpha := 1\<rparr>"
    by (simp add: rendered_def [of s1] store1 same nodes1
          assms(1) nodes2 edges2)
  also have "\<dots> = s1"
    by (rule vstate.equality) (simp_all add: nodes1 sim1 frc1 alpha1 set1)
  finally have r: "rendered s1 ?ce frc = s1" .
  have fe1: "filterEdges (renderStore s1) (v_links s1)
               (filterNodes (v_filter s1) (v_nodes s1)) = Inr fes"
    unfolding refs1 store1 same(4) by (rule fes)
  show ?thesis
    by (simp only: render_alt [of s1] fe1 ce1 lf1 r sum.case)
qed


text \<open>
  Claim C6, as the code has it. A render that succeeds leaves a state on which a second
  render changes nothing (the same circles and lines with the same classes, radii and
  colours, the same store, the same forces) exactly when the changes that the first render
  applied leave the nodes that pass the group filter the same. This is so when the first
  render leaves the node objects as they were, and when no change of the current time
  moves a node to another group while a group filter is on. It fails otherwise: the first
  render filters the nodes by their groups and then applies the changes, the second
  filters by the new groups.
\<close>

theorem C6_render_idempotent:
  assumes "render s = Inr s1"
  shows "(groupStable s \<or> v_nodes s1 = v_nodes s \<longrightarrow> render s1 = Inr s1) \<and>
         (render s1 = Inr s1 \<longleftrightarrow>
            filterNodes (v_filter s) (v_nodes s1) = filterNodes (v_filter s) (v_nodes s))"
proof -
  let ?refs = "filterNodes (v_filter s) (v_nodes s)"
  from assms have n1: "v_nodes s1 = renderStore s" and f1: "v_filter s1 = v_filter s"
    and sel1: "nodes_sel s1 = renderNodes s (renderStore s) ?refs"
    by (auto simp: render_alt rendered_def split: sum.splits)
  have suff: "render s1 = Inr s1" if "filterNodes (v_filter s) (v_nodes s1) = ?refs"
    using that assms by (simp add: n1 render_again)
  have nec: "filterNodes (v_filter s) (v_nodes s1) = ?refs" if r: "render s1 = Inr s1"
  proof -
    from render_nodes_sel [OF r]
    have "map ne_datum (nodes_sel s1) = filterNodes (v_filter s1) (v_nodes s1)"
      using renderNodes_datum [of s1 "v_nodes s1" "filterNodes (v_filter s1) (v_nodes s1)"]
      by simp
    moreover have "map ne_datum (nodes_sel s1) = ?refs"
      by (simp add: sel1 renderNodes_datum)
    ultimately show ?thesis by (simp add: f1)
  qed
  have "render s1 = Inr s1" if "groupStable s \<or> v_nodes s1 = v_nodes s"
  proof (rule suff)
    from that show "filterNodes (v_filter s) (v_nodes s1) = ?refs"
    proof
      assume "groupStable s"
      then show ?thesis by (simp add: n1 filterNodes_renderStore)
    next
      assume "v_nodes s1 = v_nodes s"
      then show ?thesis by simp
    qed
  qed
  with suff nec show ?thesis by blast
qed

theorem C6_render_idempotent_witness:
  "groupStable (blueRed\<lparr>v_time := mkWindow 0 1 1 1\<rparr>) \<and>
   storeNodes (render (blueRed\<lparr>v_time := mkWindow 0 1 1 1\<rparr>))
     = Inr [(mkNode ''a'')\<lparr>n_color := Some ''red'', n_time := Some 1\<rparr>] \<and>
   sceneNodes (render (blueRed\<lparr>v_time := mkWindow 0 1 1 1\<rparr>))
     = Inr [mkCircle 0 10 ''red''] \<and>
   andThen (render (blueRed\<lparr>v_time := mkWindow 0 1 1 1\<rparr>)) render
     = render (blueRed\<lparr>v_time := mkWindow 0 1 1 1\<rparr>)"
proof -
  let ?s = "blueRed\<lparr>v_time := mkWindow 0 1 1 1\<rparr>"
  have g: "groupStable ?s" by code_simp
  have n: "storeNodes (render ?s)
     = Inr [(mkNode ''a'')\<lparr>n_color := Some ''red'', n_time := Some 1\<rparr>]" by code_simp
  have c: "sceneNodes (render ?s) = Inr [mkCircle 0 10 ''red'']" by code_simp
  from n obtain s1 where s1: "render ?s = Inr s1" by (rule storeNodes_InrD)
  from C6_render_idempotent [OF s1] g have "render s1 = Inr s1" by blast
  with s1 have "andThen (render ?s) render = render ?s" by simp
  with g n c show ?thesis by blast
qed

text \<open>
  Against claim C6 as stated: a node of the group g1 and a change of time 5 that moves it
  to the group g2. The network is mounted, the filter is set to g1 and the time to 5: the
  scene has the node. A second render, with filter, time window, layout and payload
  untouched, leaves an empty scene.
\<close>

theorem C6_counterexample:
  "sceneNodes (andThen (andThen (chart regroup (network True ''force'' 4 16))
       (updateFilter ''g1'')) (updateTime (mkWindow 5 5 5 5)))
     = Inr [mkCircle 0 10 ''#99ccff''] \<and>
   sceneNodes (andThen (andThen (andThen (chart regroup (network True ''force'' 4 16))
       (updateFilter ''g1'')) (updateTime (mkWindow 5 5 5 5))) render)
     = Inr []"
  by code_simp

subsection \<open>Search\<close>

lemma lower_char_syntax: "syntaxCharacter (lower_char c) = syntaxCharacter c"
  by (auto simp: lower_char_def syntaxCharacter_def split: if_splits)

lemma pattern_literal:
  "list_all (\<lambda>c. \<not> syntaxCharacter c) p \<Longrightarrow> pattern p = Some (map Lit p)"
  by (induction p) (auto simp: syntaxCharacter_def)

lemma matchHere_literal: "matchHere (map Lit p) b str \<longleftrightarrow> (\<exists>post. str = p @ post)"
proof (induction p arbitrary: b str)
  case Nil
  then show ?case by simp
next
  case (Cons a p)
  show ?case
  proof (cases str)
    case Nil
    then show ?thesis by simp
  next
    case (Cons c cs)
    then show ?thesis by (auto simp: Cons.IH)
  qed
qed

lemma searchFrom_literal:
  "0 \<le> searchFrom (map Lit p) b str \<longleftrightarrow> (\<exists>pre post. str = pre @ p @ post)"
proof (induction str arbitrary: b)
  case Nil
  then show ?case by (auto simp: matchHere_literal)
next
  case (Cons c cs)
  show ?case
  proof (cases "matchHere (map Lit p) b (c # cs)")
    case True
    then obtain post where "c # cs = p @ post" by (auto simp: matchHere_literal)
    then have "c # cs = [] @ p @ post" by simp
    with True show ?thesis by (metis searchFrom.simps(2) order_refl)
  next
    case False
    then have np: "\<And>post. c # cs \<noteq> p @ post" by (auto simp: matchHere_literal)
    have "0 \<le> searchFrom (map Lit p) b (c # cs) \<longleftrightarrow> 0 \<le> searchFrom (map Lit p) False cs"
      using False by (simp add: Let_def)
    also have "\<dots> \<longleftrightarrow> (\<exists>pre post. cs = pre @ p @ post)" by (rule Cons.IH)
    also have "\<dots> \<longleftrightarrow> (\<exists>pre post. c # cs = pre @ p @ post)"
    proof
      assume "\<exists>pre post. cs = pre @ p @ post"
      then obtain pre post where "cs = pre @ p @ post" by blast
      then have "c # cs = (c # pre) @ p @ post" by simp
      then show "\<exists>pre post. c # cs = pre @ p @ post" by blast
    next
      assume "\<exists>pre post. c # cs = pre @ p @ post"
      then obtain pre post where e: "c # cs = pre @ p @ post" by blast
      show "\<exists>pre post. cs = pre @ p @ post"
      proof (cases pre)
        case Nil
        with e np show ?thesis by auto
      next
        case (Cons b pre')
        with e have "cs = pre' @ p @ post" by simp
        then show ?thesis by blast
      qed
    qed
    finally show ?thesis .
  qed
qed

lemma lowerCase_literal:
  "list_all (\<lambda>c. \<not> syntaxCharacter c) q \<Longrightarrow>
   list_all (\<lambda>c. \<not> syntaxCharacter c) (lowerCase q)"
  by (simp add: lowerCase_def list_all_iff lower_char_syntax)

lemma engine_fields [simp]:
  "toLowerCase engine = lowerCase"
  "search engine str rx = searchFrom rx True str"
  "RegExp engine p =
     (case pattern p of
        Some rx \<Rightarrow> Inr rx
      | None \<Rightarrow> if unterminated p then Inl SyntaxError else undefined)"
  by (simp_all add: engine_def)

lemma engine_literal:
  assumes "list_all (\<lambda>c. \<not> syntaxCharacter c) q"
  shows "RegExp engine (toLowerCase engine q) = Inr (map Lit (lowerCase q))"
    and "marks engine (map Lit (lowerCase q)) q d \<longleftrightarrow>
         q \<noteq> [] \<and> (\<exists>pre post. lowerCase (getName d) = pre @ lowerCase q @ post)"
  using pattern_literal [OF lowerCase_literal [OF assms]]
  by (simp_all add: marks_def searchFrom_literal)

lemma searched_flag_name:
  "getName (store[k := (store ! k)\<lparr>n_searched := b\<rparr>] ! i) = getName (store ! i)"
  by (cases "i = k \<and> k < length store")
     (auto simp: getName_def list_update_beyond not_less split: option.splits)

lemma searched_flag_color:
  "getColor (store[k := (store ! k)\<lparr>n_searched := b\<rparr>] ! i) = getColor (store ! i)"
  by (cases "i = k \<and> k < length store")
     (auto simp: getColor_def list_update_beyond not_less split: option.splits)

lemma searched_flag_searched:
  "searched B rx q (store[k := (store ! k)\<lparr>n_searched := b\<rparr>]) = searched B rx q store"
  by (simp add: fun_eq_iff searched_def marks_def searched_flag_name searched_flag_color)

lemma searchNodes_elems:
  "fst (searchNodes B rx q els store) = map (searched B rx q store) els"
proof (induction els arbitrary: store)
  case Nil
  then show ?case by simp
next
  case (Cons el els)
  let ?d = "store ! ne_datum el"
  let ?store' = "store[ne_datum el := ?d\<lparr>n_searched := marks B rx q ?d\<rparr>]"
  have "fst (searchNodes B rx q (el # els) store) =
        searched B rx q store el # fst (searchNodes B rx q els ?store')"
    by (simp add: Let_def searched_def marks_def)
  also have "fst (searchNodes B rx q els ?store') = map (searched B rx q ?store') els"
    by (rule Cons.IH)
  also have "searched B rx q ?store' = searched B rx q store"
    by (rule searched_flag_searched)
  finally show ?case by simp
qed

lemma searchNodes_store:
  assumes "distinct (map ne_datum els)"
    and "list_all (\<lambda>el. ne_datum el < length store) els"
  shows "(\<forall>el \<in> set els. snd (searchNodes B rx q els store) ! ne_datum el =
            (store ! ne_datum el)\<lparr>n_searched := marks B rx q (store ! ne_datum el)\<rparr>) \<and>
         (\<forall>i. i \<notin> ne_datum ` set els \<longrightarrow> snd (searchNodes B rx q els store) ! i = store ! i)"
  using assms
proof (induction els arbitrary: store)
  case Nil
  then show ?case by simp
next
  case (Cons el els)
  let ?k = "ne_datum el"
  let ?d = "store ! ?k"
  let ?store' = "store[?k := ?d\<lparr>n_searched := marks B rx q ?d\<rparr>]"
  have snd_eq: "snd (searchNodes B rx q (el # els) store) = snd (searchNodes B rx q els ?store')"
    by (simp add: Let_def marks_def)
  from Cons.prems have k: "?k < length store" and kn: "?k \<notin> ne_datum ` set els"
    and d: "distinct (map ne_datum els)"
    and r: "list_all (\<lambda>el. ne_datum el < length ?store') els"
    by simp_all
  note IH = Cons.IH [OF d r]
  have nm: "marks B rx q (?store' ! i) = marks B rx q (store ! i)" for i
    by (simp add: marks_def searched_flag_name)
  show ?case
  proof (intro conjI ballI allI impI)
    fix e
    assume e: "e \<in> set (el # els)"
    show "snd (searchNodes B rx q (el # els) store) ! ne_datum e =
          (store ! ne_datum e)\<lparr>n_searched := marks B rx q (store ! ne_datum e)\<rparr>"
    proof (cases "e \<in> set els")
      case True
      with kn have ne: "ne_datum e \<noteq> ?k" by (metis imageI)
      from IH True have "snd (searchNodes B rx q els ?store') ! ne_datum e =
          (?store' ! ne_datum e)\<lparr>n_searched := marks B rx q (?store' ! ne_datum e)\<rparr>"
        by blast
      with ne show ?thesis by (simp add: snd_eq nm del: searchNodes.simps)
    next
      case False
      with e have "e = el" by simp
      moreover from IH kn have "snd (searchNodes B rx q els ?store') ! ?k = ?store' ! ?k"
        by blast
      ultimately show ?thesis using k by (simp add: snd_eq del: searchNodes.simps)
    qed
  next
    fix i
    assume "i \<notin> ne_datum ` set (el # els)"
    then have "i \<noteq> ?k" and "i \<notin> ne_datum ` set els" by auto
    with IH show "snd (searchNodes B rx q (el # els) store) ! i = store ! i"
      by (simp add: snd_eq del: searchNodes.simps)
  qed
qed

lemma updateSearch_Inr:
  assumes "sceneBound s" and "RegExp B (toLowerCase B q) = Inr rx" and "nodes_set s"
  shows "\<exists>s'. updateSearch B q s = Inr s' \<and>
            nodes_sel s' = map (searched B rx q (v_nodes s)) (nodes_sel s) \<and>
            (\<forall>el \<in> set (nodes_sel s). v_nodes s' ! ne_datum el =
               (v_nodes s ! ne_datum el)
                 \<lparr>n_searched := marks B rx q (v_nodes s ! ne_datum el)\<rparr>) \<and>
            (\<forall>i. i \<notin> ne_datum ` set (nodes_sel s) \<longrightarrow> v_nodes s' ! i = v_nodes s ! i)"
proof -
  let ?r = "searchNodes B rx q (nodes_sel s) (v_nodes s)"
  let ?s' = "s\<lparr>nodes_sel := fst ?r, v_nodes := snd ?r\<rparr>"
  from assms(1) have d: "distinct (map ne_datum (nodes_sel s))"
    and r: "list_all (\<lambda>el. ne_datum el < length (v_nodes s)) (nodes_sel s)"
    by (simp_all add: sceneBound_def)
  have "updateSearch B q s = Inr ?s'"
    by (simp add: updateSearch_def assms(2,3) Let_def)
  moreover have "nodes_sel ?s' = map (searched B rx q (v_nodes s)) (nodes_sel s)"
    by (simp add: searchNodes_elems)
  moreover have "v_nodes ?s' = snd ?r" by simp
  ultimately show ?thesis
    using searchNodes_store [OF d r, of B rx q] by metis
qed

text \<open>
  Claim C8, as the code has it, for every search term and whatever the builtins compute.
  \<open>updateSearch\<close> lower-cases the term and reads it as a regular expression. When the
  term is not a regular expression, \<open>updateSearch\<close> throws the error of \<open>RegExp\<close> and
  nothing is marked or cleared. When nothing has been rendered yet, it throws a
  \<open>TypeError\<close>. Otherwise, on a scene whose circles are bound to distinct nodes (every
  rendered scene is): every rendered circle is marked (class, marker colour, and the
  \<open>searched\<close> flag of its node set) exactly when the term is not empty and the expression
  matches somewhere in the lower-cased display name of its node, and is otherwise
  unmarked, its flag cleared and its fill set to the node's own colour; a node that is
  not rendered is left as it is. For a term with no syntax character of regular
  expressions, which the engine of the examples reads as the language does, the match is
  the containment of the lower-cased term in the lower-cased name.
\<close>

theorem C8_updateSearch:
  assumes "sceneBound s"
  shows "(case RegExp B (toLowerCase B q) of
            Inl err \<Rightarrow> updateSearch B q s = Inl err
          | Inr rx \<Rightarrow>
              if nodes_set s
              then (\<exists>s'. updateSearch B q s = Inr s' \<and>
                      nodes_sel s' = map (searched B rx q (v_nodes s)) (nodes_sel s) \<and>
                      (\<forall>el \<in> set (nodes_sel s). v_nodes s' ! ne_datum el =
                         (v_nodes s ! ne_datum el)
                           \<lparr>n_searched := marks B rx q (v_nodes s ! ne_datum el)\<rparr>) \<and>
                      (\<forall>i. i \<notin> ne_datum ` set (nodes_sel s) \<longrightarrow>
                         v_nodes s' ! i = v_nodes s ! i))
              else updateSearch B q s = Inl TypeError) \<and>
         (list_all (\<lambda>c. \<not> syntaxCharacter c) q \<longrightarrow>
            RegExp engine (toLowerCase engine q) = Inr (map Lit (lowerCase q)) \<and>
            (\<forall>d. marks engine (map Lit (lowerCase q)) q d \<longleftrightarrow>
               q \<noteq> [] \<and> (\<exists>pre post. lowerCase (getName d) = pre @ lowerCase q @ post)))"
proof (intro conjI impI allI)
  show "case RegExp B (toLowerCase B q) of
            Inl err \<Rightarrow> updateSearch B q s = Inl err
          | Inr rx \<Rightarrow>
              if nodes_set s
              then (\<exists>s'. updateSearch B q s = Inr s' \<and>
                      nodes_sel s' = map (searched B rx q (v_nodes s)) (nodes_sel s) \<and>
                      (\<forall>el \<in> set (nodes_sel s). v_nodes s' ! ne_datum el =
                         (v_nodes s ! ne_datum el)
                           \<lparr>n_searched := marks B rx q (v_nodes s ! ne_datum el)\<rparr>) \<and>
                      (\<forall>i. i \<notin> ne_datum ` set (nodes_sel s) \<longrightarrow>
                         v_nodes s' ! i = v_nodes s ! i))
              else updateSearch B q s = Inl TypeError"
  proof (cases "RegExp B (toLowerCase B q)")
    case (Inl err)
    then show ?thesis by (simp add: updateSearch_def)
  next
    case (Inr rx)
    show ?thesis
    proof (cases "nodes_set s")
      case True
      from updateSearch_Inr [OF assms Inr True] Inr True show ?thesis by simp
    next
      case False
      with Inr show ?thesis by (simp add: updateSearch_def)
    qed
  qed
next
  assume l: "list_all (\<lambda>c. \<not> syntaxCharacter c) q"
  show "RegExp engine (toLowerCase engine q) = Inr (map Lit (lowerCase q))"
    by (rule engine_literal(1) [OF l])
  fix d
  show "marks engine (map Lit (lowerCase q)) q d \<longleftrightarrow>
          q \<noteq> [] \<and> (\<exists>pre post. lowerCase (getName d) = pre @ lowerCase q @ post)"
    by (rule engine_literal(2) [OF l])
qed


lemma filterNodes_bound:
  "distinct (filterNodes flt store) \<and> list_all (\<lambda>i. i < length store) (filterNodes flt store)"
  by (simp add: filterNodes_def list_all_iff)

lemma render_sceneBound:
  assumes "render s = Inr s'"
  shows "sceneBound s'"
proof -
  let ?refs = "filterNodes (v_filter s) (v_nodes s)"
  from assms have n: "v_nodes s' = renderStore s"
    and sel: "nodes_sel s' = renderNodes s (renderStore s) ?refs"
    by (auto simp: render_alt rendered_def split: sum.splits)
  have "map ne_datum (nodes_sel s') = ?refs"
    by (simp add: sel renderNodes_datum)
  moreover have "list_all (\<lambda>el. ne_datum el < length (v_nodes s')) (nodes_sel s') \<longleftrightarrow>
                 list_all (\<lambda>i. i < length (v_nodes s')) (map ne_datum (nodes_sel s'))"
    by (simp add: list_all_iff)
  ultimately show ?thesis
    using filterNodes_bound [of "v_filter s" "v_nodes s"]
    by (simp add: sceneBound_def n)
qed

theorem C8_updateSearch_witness:
  "chart abc (network False ''force'' 4 16) = Inr abcScene \<and>
   sceneBound abcScene \<and> nodes_set abcScene \<and>
   RegExp engine (toLowerCase engine ''BC'') = Inr [Lit CHR ''b'', Lit CHR ''c''] \<and>
   list_all (\<lambda>c. \<not> syntaxCharacter c) ''BC'' \<and>
   searchIn ''BC'' (Inr abcScene) =
     Inr ([(mkCircle 0 10 ''#F38630'')\<lparr>ne_search := True\<rparr>, mkCircle 1 10 ''#99ccff''],
          [(mkNode ''abc'')\<lparr>n_group := Some ''g1'', n_searched := True\<rparr>,
           (mkNode ''xa.cx'')\<lparr>n_group := Some ''g2''\<rparr>]) \<and>
   marks engine (map Lit (lowerCase ''BC'')) ''BC'' ((mkNode ''abc'')\<lparr>n_group := Some ''g1''\<rparr>) \<and>
   RegExp engine (toLowerCase engine ''a(b'') = Inl SyntaxError \<and>
   updateSearch engine ''a(b'' abcScene = Inl SyntaxError \<and>
   \<not> nodes_set (network False ''force'' 4 16) \<and>
   updateSearch engine ''BC'' (network False ''force'' 4 16) = Inl TypeError"
proof -
  let ?rx = "[Lit CHR ''b'', Lit CHR ''c'']"
  have c: "chart abc (network False ''force'' 4 16) = Inr abcScene" by code_simp
  have b: "sceneBound abcScene" by code_simp
  have n: "nodes_set abcScene" by code_simp
  have r: "RegExp engine (toLowerCase engine ''BC'') = Inr ?rx" by code_simp
  have l: "list_all (\<lambda>c. \<not> syntaxCharacter c) ''BC''" by code_simp
  have s: "searchIn ''BC'' (Inr abcScene) =
     Inr ([(mkCircle 0 10 ''#F38630'')\<lparr>ne_search := True\<rparr>, mkCircle 1 10 ''#99ccff''],
          [(mkNode ''abc'')\<lparr>n_group := Some ''g1'', n_searched := True\<rparr>,
           (mkNode ''xa.cx'')\<lparr>n_group := Some ''g2''\<rparr>])" by code_simp
  have "lowerCase (getName ((mkNode ''abc'')\<lparr>n_group := Some ''g1''\<rparr>)) =
        ''a'' @ lowerCase ''BC'' @ []" by code_simp
  then have "\<exists>pre post. lowerCase (getName ((mkNode ''abc'')\<lparr>n_group := Some ''g1''\<rparr>)) =
        pre @ lowerCase ''BC'' @ post" by blast
  with C8_updateSearch [OF b, of engine "''BC''"] l
  have m: "marks engine (map Lit (lowerCase ''BC'')) ''BC''
             ((mkNode ''abc'')\<lparr>n_group := Some ''g1''\<rparr>)" by blast
  have e: "RegExp engine (toLowerCase engine ''a(b'') = Inl SyntaxError" by code_simp
  with C8_updateSearch [OF b, of engine "''a(b''"]
  have u: "updateSearch engine ''a(b'' abcScene = Inl SyntaxError" by simp
  have n0: "\<not> nodes_set (network False ''force'' 4 16)" by code_simp
  have t: "updateSearch engine ''BC'' (network False ''force'' 4 16) = Inl TypeError"
    by code_simp
  from c b n r l s m e u n0 t show ?thesis by blast
qed

text \<open>
  Against claim C8 as stated, with the node abc rendered and the node xa.cx filtered out.
  The term \<open>a.c\<close> marks the node abc, though its name does not contain the term (the dot
  matches the b); the node xa.cx, the name of which contains the term, is not marked. The
  term \<open>^A\<close> marks the node abc as well, and no name contains it.
\<close>

theorem C8_counterexample:
  "searchIn ''a.c'' (andThen (chart abc (network False ''force'' 4 16)) (updateFilter ''g1'')) =
     Inr ([(mkCircle 0 10 ''#F38630'')\<lparr>ne_search := True\<rparr>],
          [(mkNode ''abc'')\<lparr>n_group := Some ''g1'', n_searched := True\<rparr>,
           (mkNode ''xa.cx'')\<lparr>n_group := Some ''g2''\<rparr>]) \<and>
   searchFrom (map Lit ''a.c'') True ''abc'' = - 1 \<and>
   searchFrom (map Lit ''a.c'') True ''xa.cx'' = 1 \<and>
   searchIn ''^A'' (andThen (chart abc (network False ''force'' 4 16)) (updateFilter ''g1'')) =
     Inr ([(mkCircle 0 10 ''#F38630'')\<lparr>ne_search := True\<rparr>],
          [(mkNode ''abc'')\<lparr>n_group := Some ''g1'', n_searched := True\<rparr>,
           (mkNode ''xa.cx'')\<lparr>n_group := Some ''g2''\<rparr>]) \<and>
   searchFrom (map Lit ''^a'') True ''abc'' = - 1"
  by code_simp

section \<open>Properties of the time slider\<close>

lemma ulp_pos: "0 < ulp" by (simp add: ulp_def)
lemma ulp_small: "100000 * ulp \<le> 1 / 1000" by (simp add: ulp_def)

lemma fl_err_bound: "\<bar>q\<bar> \<le> B \<Longrightarrow> \<bar>fl q - q\<bar> \<le> (B + 1) * ulp"
proof -
  assume "\<bar>q\<bar> \<le> B"
  then have "(\<bar>q\<bar> + 1) / 2 ^ 53 \<le> (B + 1) / 2 ^ 53" by (simp add: divide_right_mono)
  with fl_error [of q] show ?thesis by (simp add: ulp_def)
qed

lemma fl_0 [simp]: "fl 0 = 0" by (simp add: fl_def)
lemma fl_1 [simp]: "fl 1 = 1" by code_simp

lemma abs_scale: "0 < (a :: rat) \<Longrightarrow> \<bar>a * b\<bar> = a * \<bar>b\<bar>"
  by (simp add: abs_mult)

lemma clamp_lipschitz: "\<bar>clamp lo hi a - clamp lo hi b\<bar> \<le> \<bar>a - b\<bar>"
  by (auto simp: clamp_def min_def max_def abs_if)

lemma clamp_range: "lo \<le> hi \<Longrightarrow> lo \<le> clamp lo hi v \<and> clamp lo hi v \<le> hi"
  by (auto simp: clamp_def)

lemma clamp_id: "lo \<le> v \<Longrightarrow> v \<le> hi \<Longrightarrow> clamp lo hi v = v"
  by (auto simp: clamp_def)

lemma leadingGroup_small: "n < 1000 \<Longrightarrow> leadingGroup n = n"
  by (subst leadingGroup.simps) simp

lemma toFixed0_near: "\<bar>of_int (toFixed0 y) - y\<bar> \<le> 1 / 2"
proof (cases "y < 0")
  case True
  have "of_int \<lfloor>- y + 1 / 2\<rfloor> \<le> - y + 1 / 2" "- y + 1 / 2 < of_int \<lfloor>- y + 1 / 2\<rfloor> + 1"
    by linarith+
  moreover have "of_int (toFixed0 y) = - (of_int \<lfloor>- y + 1 / 2\<rfloor> :: rat)"
    using True by (simp add: toFixed0_def)
  ultimately show ?thesis by linarith
next
  case False
  have "of_int \<lfloor>y + 1 / 2\<rfloor> \<le> y + 1 / 2" "y + 1 / 2 < of_int \<lfloor>y + 1 / 2\<rfloor> + 1"
    by linarith+
  moreover have "of_int (toFixed0 y) = (of_int \<lfloor>y + 1 / 2\<rfloor> :: rat)"
    using False by (simp add: toFixed0_def)
  ultimately show ?thesis by linarith
qed

lemma toFixed0_int:
  assumes "\<bar>y - of_int n\<bar> < 1 / 2"
  shows "toFixed0 y = n"
proof (cases "y < 0")
  case True
  from assms have "of_int (- n) \<le> - y + 1 / 2" "- y + 1 / 2 < of_int (- n) + 1"
    by (simp_all add: abs_if split: if_splits)
  then have "\<lfloor>- y + 1 / 2\<rfloor> = - n" by (rule floor_unique)
  with True show ?thesis by (simp add: toFixed0_def)
next
  case False
  from assms have "of_int n \<le> y + 1 / 2" "y + 1 / 2 < of_int n + 1"
    by (simp_all add: abs_if split: if_splits)
  then have "\<lfloor>y + 1 / 2\<rfloor> = n" by (rule floor_unique)
  with False show ?thesis by (simp add: toFixed0_def)
qed

lemma parseInt_formatInt_small:
  assumes "- 999 \<le> v" and "v < 999 + 1 / 2"
  shows "parseInt_formatInt v = toFixed0 v"
proof -
  from toFixed0_near [of v] assms have "\<bar>(of_int (toFixed0 v) :: rat)\<bar> < of_int 1000"
    by (simp add: abs_if split: if_splits)
  then have b: "\<bar>toFixed0 v\<bar> < 1000"
    by (simp only: of_int_abs [symmetric] of_int_less_iff)
  show ?thesis
  proof (cases "toFixed0 v < 0")
    case True
    with b have "nat (- toFixed0 v) < 1000" by linarith
    then have "leadingGroup (nat (- toFixed0 v)) = nat (- toFixed0 v)"
      by (rule leadingGroup_small)
    with True show ?thesis by (simp add: parseInt_formatInt_def Let_def)
  next
    case False
    with b have "nat (toFixed0 v) < 1000" by linarith
    then have "leadingGroup (nat (toFixed0 v)) = nat (toFixed0 v)"
      by (rule leadingGroup_small)
    with False show ?thesis by (simp add: parseInt_formatInt_def Let_def)
  qed
qed

lemma slack_pos: "0 < slack" by (simp add: slack_def)
lemma slack_half: "slack < 1 / 4" by (simp add: slack_def)
lemma ulp_slack: "100000 * ulp \<le> slack" by (simp add: slack_def ulp_def)

lemma toFixed0_mono:
  assumes "a \<le> b"
  shows "toFixed0 a \<le> toFixed0 b"
proof (cases "b < 0")
  case True
  with assms have "a < 0" by simp
  from assms have "\<lfloor>- b + 1 / 2\<rfloor> \<le> \<lfloor>- a + 1 / 2\<rfloor>" by (intro floor_mono) simp
  with True \<open>a < 0\<close> show ?thesis by (simp add: toFixed0_def)
next
  case False
  show ?thesis
  proof (cases "a < 0")
    case True
    then have "0 \<le> \<lfloor>- a + 1 / 2\<rfloor>" by simp
    moreover from False have "0 \<le> \<lfloor>b + 1 / 2\<rfloor>" by simp
    moreover have "toFixed0 a = - \<lfloor>- a + 1 / 2\<rfloor>" "toFixed0 b = \<lfloor>b + 1 / 2\<rfloor>"
      using True False by (simp_all add: toFixed0_def)
    ultimately show ?thesis by linarith
  next
    case a: False
    from assms have "\<lfloor>a + 1 / 2\<rfloor> \<le> \<lfloor>b + 1 / 2\<rfloor>" by (intro floor_mono) simp
    with a False show ?thesis by (simp add: toFixed0_def)
  qed
qed

lemma roundsTo_toFixed0:
  assumes "\<bar>y - c\<bar> \<le> slack"
  shows "roundsTo (of_int (toFixed0 y)) c"
proof -
  from assms have "c - slack \<le> y" "y \<le> c + slack" by linarith+
  then have lo: "toFixed0 (c - slack) \<le> toFixed0 y" and hi: "toFixed0 y \<le> toFixed0 (c + slack)"
    by (simp_all add: toFixed0_mono)
  have "(of_int (toFixed0 (c + slack)) :: rat) < of_int (toFixed0 (c - slack)) + 2"
    using toFixed0_near [of "c + slack"] toFixed0_near [of "c - slack"] slack_half
    by linarith
  then have "(of_int (toFixed0 (c + slack)) :: rat) < of_int (toFixed0 (c - slack) + 2)"
    by simp
  then have "toFixed0 (c + slack) < toFixed0 (c - slack) + 2"
    by (simp only: of_int_less_iff)
  with lo hi have "toFixed0 y = toFixed0 (c - slack) \<or> toFixed0 y = toFixed0 (c + slack)"
    by linarith
  then show ?thesis by (auto simp: roundsTo_def)
qed

lemma roundsTo_parse:
  assumes "\<bar>y - c\<bar> \<le> 100000 * ulp" and "- 999 \<le> y" and "y < 999 + 1 / 2"
  shows "roundsTo (of_int (parseInt_formatInt y)) c"
proof -
  have "parseInt_formatInt y = toFixed0 y"
    using assms(2,3) by (rule parseInt_formatInt_small)
  moreover from assms(1) ulp_slack have "\<bar>y - c\<bar> \<le> slack" by linarith
  ultimately show ?thesis by (simp add: roundsTo_toFixed0)
qed

lemma roundsTo_int:
  assumes "roundsTo m (of_int n)"
  shows "m = of_int n"
proof -
  have "\<bar>(of_int n - slack) - of_int n\<bar> < 1 / 2" "\<bar>(of_int n + slack) - of_int n\<bar> < 1 / 2"
    using slack_pos slack_half by (simp_all add: abs_if)
  then have "toFixed0 (of_int n - slack) = n" "toFixed0 (of_int n + slack) = n"
    by (simp_all only: toFixed0_int)
  with assms show ?thesis by (simp add: roundsTo_def)
qed

lemma roundsTo_exact:
  assumes "roundsTo m c" and "toFixed0 (c - slack) = toFixed0 (c + slack)"
  shows "m = of_int (toFixed0 c)"
proof -
  have "toFixed0 (c - slack) \<le> toFixed0 c" "toFixed0 c \<le> toFixed0 (c + slack)"
    using slack_pos by (simp_all add: toFixed0_mono)
  with assms(2) have "toFixed0 c = toFixed0 (c + slack)" by simp
  with assms show ?thesis by (auto simp: roundsTo_def)
qed

lemma x_scale_err:
  assumes "0 < ts" and "0 \<le> v"
  shows "\<bar>x_scale ts v - 500 * (min ts v / ts)\<bar> \<le> 2001 * ulp"
proof -
  let ?c = "min ts v"
  let ?r = "fl (?c / ts)"
  have c: "0 \<le> ?c / ts" "?c / ts \<le> 1" using assms by simp_all
  then have "\<bar>?c / ts\<bar> \<le> 1" by simp
  from fl_err_bound [OF this] have r: "\<bar>?r - ?c / ts\<bar> \<le> 2 * ulp" by simp
  with c ulp_small ulp_pos have "\<bar>500 * ?r\<bar> \<le> 1000" by (simp add: abs_if split: if_splits)
  from fl_err_bound [OF this] have "\<bar>fl (500 * ?r) - 500 * ?r\<bar> \<le> 1001 * ulp" by simp
  with r have "\<bar>fl (500 * ?r) - 500 * (?c / ts)\<bar> \<le> 2001 * ulp" by linarith
  moreover have "x_scale ts v = fl (500 * ?r)"
    using assms by (simp add: x_scale_def Let_def clamp_def fmul_def fdiv_def width_def max_absorb2)
  ultimately show ?thesis by simp
qed

lemma x_invert_err:
  assumes "0 < ts" and "ts \<le> 999" and "\<bar>y\<bar> \<le> 2000"
  shows "\<exists>p. x_invert ts y = clamp 0 ts p \<and> \<bar>p - ts * (y / 500)\<bar> \<le> 10000 * ulp"
proof -
  let ?r = "fl (y / 500)"
  let ?p = "fl (ts * ?r)"
  from assms(3) have "\<bar>y / 500\<bar> \<le> 4" by simp
  from fl_err_bound [OF this] have r: "\<bar>?r - y / 500\<bar> \<le> 5 * ulp" by simp
  with \<open>\<bar>y / 500\<bar> \<le> 4\<close> ulp_small ulp_pos have r5: "\<bar>?r\<bar> \<le> 5" by linarith
  have "\<bar>ts * ?r\<bar> = ts * \<bar>?r\<bar>" using assms(1) by (simp add: abs_mult)
  also have "\<dots> \<le> 999 * 5" using assms r5 by (intro mult_mono) simp_all
  finally have "\<bar>ts * ?r\<bar> \<le> 4995" by simp
  from fl_err_bound [OF this] have p: "\<bar>?p - ts * ?r\<bar> \<le> 4996 * ulp" by simp
  have "\<bar>ts * ?r - ts * (y / 500)\<bar> = ts * \<bar>?r - y / 500\<bar>"
    by (simp only: right_diff_distrib [symmetric] abs_scale [OF assms(1)])
  also have "\<dots> \<le> 999 * (5 * ulp)" using assms r ulp_pos by (intro mult_mono) simp_all
  finally have "\<bar>ts * ?r - ts * (y / 500)\<bar> \<le> 4995 * ulp" by simp
  with p have "\<bar>?p - ts * (y / 500)\<bar> \<le> 10000 * ulp" using ulp_pos by linarith
  moreover have "x_invert ts y = clamp 0 ts ?p"
    using assms(1) by (simp add: x_invert_def fmul_def fdiv_def width_def)
  ultimately show ?thesis by blast
qed

lemma scale_back:
  assumes "0 < (ts :: rat)" and "ts \<le> 999" and "\<bar>cx - 500 * (d / ts)\<bar> \<le> K"
  shows "\<bar>ts * (cx / 500) - d\<bar> \<le> 2 * K"
proof -
  have "ts * (cx / 500) - d = (ts / 500) * (cx - 500 * (d / ts))"
    using assms(1) by (simp add: field_simps)
  moreover have "0 < ts / 500" using assms(1) by simp
  ultimately have "\<bar>ts * (cx / 500) - d\<bar> = (ts / 500) * \<bar>cx - 500 * (d / ts)\<bar>"
    by (simp only: abs_scale)
  also have "\<dots> \<le> 2 * K"
    using assms by (intro mult_mono) simp_all
  finally show ?thesis .
qed

lemma x_scale_bounds:
  assumes "0 < ts" and "0 \<le> v"
  shows "0 \<le> x_scale ts v \<and> x_scale ts v \<le> 501"
proof -
  have "0 \<le> min ts v / ts" "min ts v / ts \<le> 1" using assms by simp_all
  then have "0 \<le> 500 * (min ts v / ts)" "500 * (min ts v / ts) \<le> 500" by simp_all
  moreover have "0 \<le> x_scale ts v"
    using assms
    by (simp add: x_scale_def Let_def clamp_def fmul_def fdiv_def width_def max_absorb2 fl_nonneg)
  ultimately show ?thesis using x_scale_err [OF assms] ulp_small ulp_pos by linarith
qed


lemma scale_back_le:
  assumes "0 < (ts :: rat)" and "ts \<le> 999" and "500 * (d / ts) \<le> K" and "0 \<le> K"
  shows "d \<le> 2 * K"
proof (cases "d \<le> 0")
  case True
  with assms(4) show ?thesis by simp
next
  case False
  have "d = (ts / 500) * (500 * (d / ts))" using assms(1) by (simp add: field_simps)
  also have "\<dots> \<le> 2 * K" using assms False by (intro mult_mono) simp_all
  finally show ?thesis .
qed

lemma x_invert_0: "0 < ts \<Longrightarrow> x_invert ts 0 = 0"
  by (simp add: x_invert_def fmul_def fdiv_def clamp_def)

lemma past_marker:
  assumes "0 < ts" and "ts \<le> 999" and "0 \<le> t" and "t \<le> ts" and "0 \<le> pd"
  shows "\<bar>x_invert ts (if x_scale ts t > x_scale ts pd
                         then fsub (x_scale ts t) (x_scale ts pd) else 0)
          - max 0 (t - pd)\<bar> \<le> 20000 * ulp"
proof -
  let ?d = "t - min ts pd"
  have et: "\<bar>x_scale ts t - 500 * (t / ts)\<bar> \<le> 2001 * ulp"
    using x_scale_err [OF assms(1,3)] assms(4) by (simp add: min_absorb2)
  have ep: "\<bar>x_scale ts pd - 500 * (min ts pd / ts)\<bar> \<le> 2001 * ulp"
    using assms by (intro x_scale_err)
  have bt: "0 \<le> x_scale ts t" "x_scale ts t \<le> 501"
    using x_scale_bounds [OF assms(1,3)] by simp_all
  have bp: "0 \<le> x_scale ts pd" "x_scale ts pd \<le> 501"
    using x_scale_bounds [OF assms(1,5)] by simp_all
  have sp: "500 * (?d / ts) = 500 * (t / ts) - 500 * (min ts pd / ts)"
    by (simp add: diff_divide_distrib right_diff_distrib)
  have u: "max 0 (t - pd) = clamp 0 ts ?d"
    using assms by (auto simp: clamp_def min_def max_def)
  show ?thesis
  proof (cases "x_scale ts t > x_scale ts pd")
    case True
    let ?cx = "fl (x_scale ts t - x_scale ts pd)"
    from bt bp have "\<bar>x_scale ts t - x_scale ts pd\<bar> \<le> 501" by linarith
    from fl_err_bound [OF this]
    have e: "\<bar>?cx - (x_scale ts t - x_scale ts pd)\<bar> \<le> 502 * ulp" by simp
    with et ep sp have c: "\<bar>?cx - 500 * (?d / ts)\<bar> \<le> 4504 * ulp" by linarith
    from e bt bp ulp_small ulp_pos have "\<bar>?cx\<bar> \<le> 2000" by linarith
    from x_invert_err [OF assms(1,2) this] obtain p
      where p: "x_invert ts ?cx = clamp 0 ts p" "\<bar>p - ts * (?cx / 500)\<bar> \<le> 10000 * ulp"
      by blast
    from scale_back [OF assms(1,2) c] p(2) have "\<bar>p - ?d\<bar> \<le> 20000 * ulp"
      using ulp_pos by linarith
    with clamp_lipschitz [of 0 ts p ?d] have "\<bar>clamp 0 ts p - clamp 0 ts ?d\<bar> \<le> 20000 * ulp"
      by linarith
    with True p(1) u show ?thesis by (simp add: fsub_def)
  next
    case False
    with et ep sp have "500 * (?d / ts) \<le> 4002 * ulp" by linarith
    from scale_back_le [OF assms(1,2) this] ulp_pos have "?d \<le> 8004 * ulp" by simp
    then have "clamp 0 ts ?d \<le> 8004 * ulp" "0 \<le> clamp 0 ts ?d"
      using ulp_pos assms(1) by (auto simp: clamp_def min_def max_def)
    with False u x_invert_0 [OF assms(1)] ulp_pos show ?thesis by simp
  qed
qed

lemma future_marker:
  assumes "0 < ts" and "ts \<le> 999" and "0 \<le> t" and "t \<le> ts" and "0 \<le> a" and "0 \<le> f"
  shows "\<bar>x_invert ts (if fadd (fadd (x_scale ts t) (x_scale ts a)) (x_scale ts f) < width
                         then fadd (fadd (x_scale ts t) (x_scale ts a)) (x_scale ts f)
                         else width)
          - min ts (t + a + f)\<bar> \<le> 30000 * ulp"
proof -
  let ?D = "t + min ts a + min ts f"
  let ?s1 = "fl (x_scale ts t + x_scale ts a)"
  let ?s = "fl (?s1 + x_scale ts f)"
  have et: "\<bar>x_scale ts t - 500 * (t / ts)\<bar> \<le> 2001 * ulp"
    using x_scale_err [OF assms(1,3)] assms(4) by (simp add: min_absorb2)
  have ea: "\<bar>x_scale ts a - 500 * (min ts a / ts)\<bar> \<le> 2001 * ulp"
    using assms by (intro x_scale_err)
  have ef: "\<bar>x_scale ts f - 500 * (min ts f / ts)\<bar> \<le> 2001 * ulp"
    using assms by (intro x_scale_err)
  have bt: "0 \<le> x_scale ts t" "x_scale ts t \<le> 501"
    using x_scale_bounds [OF assms(1,3)] by simp_all
  have ba: "0 \<le> x_scale ts a" "x_scale ts a \<le> 501"
    using x_scale_bounds [OF assms(1,5)] by simp_all
  have bf: "0 \<le> x_scale ts f" "x_scale ts f \<le> 501"
    using x_scale_bounds [OF assms(1,6)] by simp_all
  from bt ba have "\<bar>x_scale ts t + x_scale ts a\<bar> \<le> 1002" by linarith
  from fl_err_bound [OF this]
  have e1: "\<bar>?s1 - (x_scale ts t + x_scale ts a)\<bar> \<le> 1003 * ulp" by simp
  with bt ba bf ulp_small ulp_pos have "\<bar>?s1 + x_scale ts f\<bar> \<le> 1504" by linarith
  from fl_err_bound [OF this]
  have e2: "\<bar>?s - (?s1 + x_scale ts f)\<bar> \<le> 1505 * ulp" by simp
  have sp: "500 * (?D / ts) = 500 * (t / ts) + 500 * (min ts a / ts) + 500 * (min ts f / ts)"
    by (simp add: add_divide_distrib distrib_left)
  from et ea have "\<bar>x_scale ts t + x_scale ts a - (500 * (t / ts) + 500 * (min ts a / ts))\<bar>
      \<le> 4002 * ulp" by linarith
  with e1 have "\<bar>?s1 - (500 * (t / ts) + 500 * (min ts a / ts))\<bar> \<le> 5005 * ulp"
    by linarith
  with ef have "\<bar>?s1 + x_scale ts f - 500 * (?D / ts)\<bar> \<le> 7006 * ulp"
    unfolding sp by linarith
  with e2 have c: "\<bar>?s - 500 * (?D / ts)\<bar> \<le> 8511 * ulp" by linarith
  have u: "min ts (t + a + f) = clamp 0 ts ?D"
    using assms by (auto simp: clamp_def min_def max_def)
  show ?thesis
  proof (cases "?s < width")
    case True
    from e1 e2 bt ba bf ulp_small ulp_pos have "\<bar>?s\<bar> \<le> 2000" by linarith
    from x_invert_err [OF assms(1,2) this] obtain p
      where p: "x_invert ts ?s = clamp 0 ts p" "\<bar>p - ts * (?s / 500)\<bar> \<le> 10000 * ulp"
      by blast
    from scale_back [OF assms(1,2) c] p(2) have "\<bar>p - ?D\<bar> \<le> 30000 * ulp"
      using ulp_pos by linarith
    with clamp_lipschitz [of 0 ts p ?D] have "\<bar>clamp 0 ts p - clamp 0 ts ?D\<bar> \<le> 30000 * ulp"
      by linarith
    with True p(1) u show ?thesis by (simp add: fadd_def)
  next
    case False
    have "\<bar>500 :: rat\<bar> \<le> 2000" by simp
    from x_invert_err [OF assms(1,2) this] obtain p
      where p: "x_invert ts 500 = clamp 0 ts p" "\<bar>p - ts * (500 / 500)\<bar> \<le> 10000 * ulp"
      by blast
    from p(2) have "\<bar>p - ts\<bar> \<le> 10000 * ulp" by simp
    with clamp_lipschitz [of 0 ts p ts] assms(1)
    have cp: "\<bar>clamp 0 ts p - ts\<bar> \<le> 10000 * ulp" by (simp add: clamp_id)
    have "500 * ((ts - ?D) / ts) = 500 - 500 * (?D / ts)"
      using assms(1) by (simp add: diff_divide_distrib right_diff_distrib)
    with False c have "500 * ((ts - ?D) / ts) \<le> 8511 * ulp" by (simp add: width_def)
    from scale_back_le [OF assms(1,2) this] ulp_pos have "ts - ?D \<le> 17022 * ulp" by simp
    moreover have "0 \<le> ?D" using assms by simp
    ultimately have "ts - 17022 * ulp \<le> clamp 0 ts ?D" "clamp 0 ts ?D \<le> ts"
      using ulp_pos assms(1) by (auto simp: clamp_def min_def max_def)
    with cp have "\<bar>clamp 0 ts p - clamp 0 ts ?D\<bar> \<le> 30000 * ulp" using ulp_pos by linarith
    with False p(1) u show ?thesis by (simp add: fadd_def width_def)
  qed
qed

lemma aggregated_marker:
  assumes "0 \<le> t" and "0 \<le> a" and "t + a \<le> 999"
  shows "\<bar>fadd t a - (t + a)\<bar> \<le> 1000 * ulp \<and> 0 \<le> fadd t a \<and> fadd t a < 999 + 1 / 2"
proof -
  from assms have "\<bar>t + a\<bar> \<le> 999" by simp
  from fl_err_bound [OF this] have e: "\<bar>fl (t + a) - (t + a)\<bar> \<le> 1000 * ulp" by simp
  moreover have "0 \<le> fl (t + a)" using assms by (simp add: fl_nonneg)
  moreover from e assms(3) ulp_small have "fl (t + a) < 999 + 1 / 2" by linarith
  ultimately show ?thesis by (simp add: fadd_def)
qed

lemma x_invert_range:
  assumes "0 < ts"
  shows "0 \<le> x_invert ts px \<and> x_invert ts px \<le> ts"
  using assms by (simp add: x_invert_def clamp_def)

lemma moveHandles_fields [simp]:
  "timeSteps (moveHandles v sl) = timeSteps sl"
  "aggregationDelta (moveHandles v sl) = aggregationDelta sl"
  "pastHandle_cx (moveHandles v sl) =
     (if x_scale (timeSteps sl) v > x_scale (timeSteps sl) (pastDelta sl)
      then fsub (x_scale (timeSteps sl) v) (x_scale (timeSteps sl) (pastDelta sl)) else 0)"
  "futureHandle_cx (moveHandles v sl) =
     (if fadd (fadd (x_scale (timeSteps sl) v) (x_scale (timeSteps sl) (aggregationDelta sl)))
           (x_scale (timeSteps sl) (futureDelta sl)) < width
      then fadd (fadd (x_scale (timeSteps sl) v) (x_scale (timeSteps sl) (aggregationDelta sl)))
             (x_scale (timeSteps sl) (futureDelta sl))
      else width)"
  by (simp_all add: moveHandles_def Let_def)

text \<open>
  Claim C2, as the code has it. Every caller passes \<open>update\<close> a value that \<open>x.invert\<close> has
  clamped to the domain \<open>[0, timeSteps]\<close> (the drag of the primary handle does). For such
  a value \<open>t\<close>, deltas that are not negative and a domain that ends at 999 or below,
  \<open>update\<close> pushes to the renderer, which renders again, a window of integers. Its time
  is \<open>t\<close> rounded to an integer, a half away from zero. Its past and future are read back
  from the pixels of the handles, through roundings of binary64, and then rounded to an
  integer: past is the rounding of a number no further than \<open>1 / 10^9\<close> from
  \<open>max(0, t - pastDelta)\<close>, future of one that close to
  \<open>min(timeSteps, t + aggregationDelta + futureDelta)\<close>, and, when \<open>t + aggregationDelta\<close>
  does not pass the end of the domain, aggregated of one that close to
  \<open>min(timeSteps, t + aggregationDelta)\<close>. So a marker is the rounded value of the
  formula, and the value itself when that is an integer (\<open>roundsTo_int\<close>), except that
  within \<open>1 / 10^9\<close> of a half it may be the integer below or the integer above.
\<close>

theorem C2_update_window:
  assumes "0 < timeSteps sl" and "timeSteps sl \<le> 999"
    and "0 \<le> pastDelta sl" and "0 \<le> aggregationDelta sl" and "0 \<le> futureDelta sl"
    and "0 \<le> t" and "t \<le> timeSteps sl"
  shows "update t sl s =
           (moveHandles t sl, render (s\<lparr>v_time := newTime t (moveHandles t sl)\<rparr>)) \<and>
         roundsTo (w_past (newTime t (moveHandles t sl))) (max 0 (t - pastDelta sl)) \<and>
         w_time (newTime t (moveHandles t sl)) = of_int (toFixed0 t) \<and>
         roundsTo (w_future (newTime t (moveHandles t sl)))
           (min (timeSteps sl) (t + aggregationDelta sl + futureDelta sl)) \<and>
         (t + aggregationDelta sl \<le> timeSteps sl \<longrightarrow>
            roundsTo (w_aggregated (newTime t (moveHandles t sl)))
              (min (timeSteps sl) (t + aggregationDelta sl))) \<and>
         0 \<le> x_invert (timeSteps sl) px \<and> x_invert (timeSteps sl) px \<le> timeSteps sl \<and>
         drag px sl s = update (x_invert (timeSteps sl) px) (sl\<lparr>currentValue := px\<rparr>) s"
proof (intro conjI impI)
  show "update t sl s =
           (moveHandles t sl, render (s\<lparr>v_time := newTime t (moveHandles t sl)\<rparr>))"
    by (simp add: update_def updateTime_def Let_def)
  let ?p = "x_invert (timeSteps sl) (pastHandle_cx (moveHandles t sl))"
  have "\<bar>?p - max 0 (t - pastDelta sl)\<bar> \<le> 20000 * ulp"
    using past_marker [OF assms(1,2,6,7,3)] by simp
  then have "\<bar>?p - max 0 (t - pastDelta sl)\<bar> \<le> 100000 * ulp"
    using ulp_pos by linarith
  moreover have "- 999 \<le> ?p" and "?p < 999 + 1 / 2"
    using x_invert_range [OF assms(1), of "pastHandle_cx (moveHandles t sl)"] assms(2)
    by linarith+
  ultimately have "roundsTo (of_int (parseInt_formatInt ?p)) (max 0 (t - pastDelta sl))"
    by (rule roundsTo_parse)
  then show "roundsTo (w_past (newTime t (moveHandles t sl))) (max 0 (t - pastDelta sl))"
    by (simp add: newTime_def)
  from assms have "- 999 \<le> t" and "t < 999 + 1 / 2" by linarith+
  from parseInt_formatInt_small [OF this]
  show "w_time (newTime t (moveHandles t sl)) = of_int (toFixed0 t)"
    by (simp add: newTime_def)
  let ?f = "x_invert (timeSteps sl) (futureHandle_cx (moveHandles t sl))"
  let ?c = "min (timeSteps sl) (t + aggregationDelta sl + futureDelta sl)"
  have "\<bar>?f - ?c\<bar> \<le> 30000 * ulp"
    using future_marker [OF assms(1,2,6,7,4,5)] by simp
  then have "\<bar>?f - ?c\<bar> \<le> 100000 * ulp"
    using ulp_pos by linarith
  moreover have "- 999 \<le> ?f" and "?f < 999 + 1 / 2"
    using x_invert_range [OF assms(1), of "futureHandle_cx (moveHandles t sl)"] assms(2)
    by linarith+
  ultimately have "roundsTo (of_int (parseInt_formatInt ?f)) ?c"
    by (rule roundsTo_parse)
  then show "roundsTo (w_future (newTime t (moveHandles t sl))) ?c"
    by (simp add: newTime_def)
  show "0 \<le> x_invert (timeSteps sl) px" and "x_invert (timeSteps sl) px \<le> timeSteps sl"
    using x_invert_range [OF assms(1)] by simp_all
  show "drag px sl s = update (x_invert (timeSteps sl) px) (sl\<lparr>currentValue := px\<rparr>) s"
    by (simp add: drag_def)
next
  assume a: "t + aggregationDelta sl \<le> timeSteps sl"
  let ?a = "fadd t (aggregationDelta sl)"
  from a assms(2) have "t + aggregationDelta sl \<le> 999" by linarith
  from aggregated_marker [OF assms(6,4) this]
  have e: "\<bar>?a - (t + aggregationDelta sl)\<bar> \<le> 1000 * ulp"
    and lo: "0 \<le> ?a" and hi: "?a < 999 + 1 / 2"
    by simp_all
  from e a have "\<bar>?a - min (timeSteps sl) (t + aggregationDelta sl)\<bar> \<le> 100000 * ulp"
    using ulp_pos by (simp add: min_absorb2)
  moreover from lo have "- 999 \<le> ?a" by linarith
  ultimately have "roundsTo (of_int (parseInt_formatInt ?a))
      (min (timeSteps sl) (t + aggregationDelta sl))"
    using hi by (rule roundsTo_parse)
  then show "roundsTo (w_aggregated (newTime t (moveHandles t sl)))
      (min (timeSteps sl) (t + aggregationDelta sl))"
    by (simp add: newTime_def)
qed

theorem C2_update_window_witness:
  "0 < timeSteps (mkSlider 10 1 0 1) \<and> timeSteps (mkSlider 10 1 0 1) \<le> 999 \<and>
   0 \<le> pastDelta (mkSlider 10 1 0 1) \<and> 0 \<le> aggregationDelta (mkSlider 10 1 0 1) \<and>
   0 \<le> futureDelta (mkSlider 10 1 0 1) \<and>
   (5 / 2) + aggregationDelta (mkSlider 10 1 0 1) \<le> timeSteps (mkSlider 10 1 0 1) \<and>
   newTime (5 / 2) (moveHandles (5 / 2) (mkSlider 10 1 0 1)) = mkWindow 2 3 3 4 \<and>
   roundsTo (w_past (newTime (5 / 2) (moveHandles (5 / 2) (mkSlider 10 1 0 1))))
     (max 0 (5 / 2 - pastDelta (mkSlider 10 1 0 1))) \<and>
   roundsTo (w_aggregated (newTime (5 / 2) (moveHandles (5 / 2) (mkSlider 10 1 0 1))))
     (min (timeSteps (mkSlider 10 1 0 1)) (5 / 2 + aggregationDelta (mkSlider 10 1 0 1))) \<and>
   sceneEdges (snd (update (5 / 2) (mkSlider 10 1 0 1) scenarioLoaded)) =
     Inr [mkLine bc False]"
proof -
  let ?sl = "mkSlider 10 1 0 1"
  have h: "0 < timeSteps ?sl" "timeSteps ?sl \<le> 999" "0 \<le> pastDelta ?sl"
    "0 \<le> aggregationDelta ?sl" "0 \<le> futureDelta ?sl" "0 \<le> (5 / 2 :: rat)"
    "5 / 2 \<le> timeSteps ?sl"
    by code_simp+
  have a: "5 / 2 + aggregationDelta ?sl \<le> timeSteps ?sl" by code_simp
  have w: "newTime (5 / 2) (moveHandles (5 / 2) ?sl) = mkWindow 2 3 3 4" by code_simp
  have e: "sceneEdges (snd (update (5 / 2) ?sl scenarioLoaded)) = Inr [mkLine bc False]"
    unfolding update_def Let_def snd_conv w by code_simp
  from C2_update_window [OF h, of scenarioLoaded 0] a
  have "roundsTo (w_past (newTime (5 / 2) (moveHandles (5 / 2) ?sl)))
          (max 0 (5 / 2 - pastDelta ?sl))"
    and "roundsTo (w_aggregated (newTime (5 / 2) (moveHandles (5 / 2) ?sl)))
          (min (timeSteps ?sl) (5 / 2 + aggregationDelta ?sl))"
    by blast+
  with h(1-5) a w e show ?thesis by blast
qed

text \<open>
  Against claim C2 as stated. With a domain of 7 steps, the primary handle at 7/2 and
  the past and future deltas 1, the pushed window has past 2, where the claim has
  \<open>max(0, t - pastDelta) = 5/2\<close> (and rounding 5/2 gives 3: the pixels of the past handle
  read back as a number just below 5/2). With a domain of 10 steps, the primary handle at
  39/4, the aggregation delta 1 and the other deltas 0, the pushed window has past 10,
  where the claim has \<open>39/4\<close>, and aggregated 11, where the claim has
  \<open>min(domainMax, t + aggregationDelta) = 10\<close>.
\<close>

theorem C2_counterexample:
  "newTime (7 / 2) (moveHandles (7 / 2) (mkSlider 7 1 0 1)) = mkWindow 2 4 4 5 \<and>
   max 0 (7 / 2 - pastDelta (mkSlider 7 1 0 1)) = 5 / 2 \<and>
   toFixed0 (5 / 2) = 3 \<and>
   x_invert 7 (pastHandle_cx (moveHandles (7 / 2) (mkSlider 7 1 0 1))) = 5 / 2 - 1 / 2 ^ 51 \<and>
   newTime (39 / 4) (moveHandles (39 / 4) (mkSlider 10 0 1 0)) = mkWindow 10 10 11 10 \<and>
   max 0 (39 / 4 - pastDelta (mkSlider 10 0 1 0)) = 39 / 4 \<and>
   min (timeSteps (mkSlider 10 0 1 0)) (39 / 4 + aggregationDelta (mkSlider 10 0 1 0)) = 10"
proof -
  have a: "newTime (7 / 2) (moveHandles (7 / 2) (mkSlider 7 1 0 1)) = mkWindow 2 4 4 5"
    by code_simp
  have b: "newTime (39 / 4) (moveHandles (39 / 4) (mkSlider 10 0 1 0)) = mkWindow 10 10 11 10"
    by code_simp
  have c: "x_invert 7 (pastHandle_cx (moveHandles (7 / 2) (mkSlider 7 1 0 1))) =
           5 / 2 - 1 / 2 ^ 51"
    by code_simp
  have d: "max 0 (7 / 2 - pastDelta (mkSlider 7 1 0 1)) = 5 / 2" "toFixed0 (5 / 2) = 3"
    "max 0 (39 / 4 - pastDelta (mkSlider 10 0 1 0)) = 39 / 4"
    "min (timeSteps (mkSlider 10 0 1 0)) (39 / 4 + aggregationDelta (mkSlider 10 0 1 0)) = 10"
    by code_simp+
  from a b c d show ?thesis by blast
qed

text \<open>
  Claim C3 fails on the code. With a domain of 10 steps, the primary handle at its end 10
  and the aggregation delta 1, the pushed window has aggregated 11 above future 10: the
  aggregation handle and the future marker are clamped to the end of the domain, the
  aggregated marker is read from \<open>value + aggregationDelta\<close> and is not. With a domain of
  2000 steps, the handle at 1000 and the past delta 500, the window has past 500 above
  time 1: \<open>parseInt\<close> stops at the comma of \<open>1,000\<close>.
\<close>

theorem C3_window_out_of_order:
  "newTime 10 (moveHandles 10 (mkSlider 10 0 1 0)) = mkWindow 10 10 11 10 \<and>
   \<not> w_aggregated (newTime 10 (moveHandles 10 (mkSlider 10 0 1 0)))
       \<le> w_future (newTime 10 (moveHandles 10 (mkSlider 10 0 1 0))) \<and>
   newTime 1000 (moveHandles 1000 (mkSlider 2000 500 0 0)) = mkWindow 500 1 1 1 \<and>
   \<not> w_past (newTime 1000 (moveHandles 1000 (mkSlider 2000 500 0 0)))
       \<le> w_time (newTime 1000 (moveHandles 1000 (mkSlider 2000 500 0 0)))"
proof -
  have a: "newTime 10 (moveHandles 10 (mkSlider 10 0 1 0)) = mkWindow 10 10 11 10"
    by code_simp
  have b: "newTime 1000 (moveHandles 1000 (mkSlider 2000 500 0 0)) = mkWindow 500 1 1 1"
    by code_simp
  show ?thesis unfolding a b by (simp add: mkWindow_def)
qed

end
